theory Spec2Isabelle
  imports Main "HOL-Library.Word" "HOL-Library.Monad_Syntax"
begin

unbundle bit_operations_syntax

section \<open>Sercomm: serial message generator and parser\<close>

text \<open>
  A shallow embedding of \<^verbatim>\<open>sercomm.h\<close> and of the C file that implements it
  (\<^verbatim>\<open>put_field\<close>, \<^verbatim>\<open>get_field\<close>, \<^verbatim>\<open>sc_make_message\<close>, \<^verbatim>\<open>shift_message\<close>,
  \<^verbatim>\<open>sc_get_message\<close>), built without \<^verbatim>\<open>SERCOMM_USE_TINY_SC\<close>: the types
  \<^verbatim>\<open>sc_size_t\<close>, \<^verbatim>\<open>sc_cmd_t\<close> and \<^verbatim>\<open>sc_cctrl_t\<close> are \<^verbatim>\<open>uint32_t\<close>.

  Conventions of the embedding.
  \<^item> A C array is the list of its bytes; the length of the list is the size of the
    array. An access outside the array is undefined behaviour in C; every function below
    returns \<open>None\<close> there. The field \<^verbatim>\<open>buffer_size\<close> is never read by the C code, so the
    bounds are those of the array itself.
  \<^item> A pointer into an array that is handed to a command callback is the part of the
    array that starts where it points (\<open>drop off a\<close>).
  \<^item> A callback is what it writes: the timestamp callback is the bytes it stores at its
    argument, the hash callback is a function from the hashed bytes to the bytes it
    stores at \<^verbatim>\<open>hashptr\<close>. Command and reset callbacks are recorded in a trace of events;
    they do not touch the \<^verbatim>\<open>struct sercomm\<close>.
  \<^item> \<^verbatim>\<open>put_field\<close> and \<^verbatim>\<open>get_field\<close> store and load through casted pointers, so the
    byte order is the host's. It is a parameter of the embedding. Alignment is not
    modelled.
\<close>

subsection \<open>Types and constants of \<^verbatim>\<open>sercomm.h\<close>\<close>

type_synonym byte = "8 word"
type_synonym sc_size_t = "32 word"
type_synonym sc_cmd_t = "32 word"
type_synonym sc_cctrl_t = "32 word"

definition SERCOMM_IGNORE_MSG_VALID_LENGTH :: sc_size_t where
  "SERCOMM_IGNORE_MSG_VALID_LENGTH = 0xFFFFFFFF"

definition SERCOMM_OMIT_RESET :: "8 word" where
  "SERCOMM_OMIT_RESET = 0xFF"

datatype endian = Little | Big

record sercomm =
  cmd_bytes :: "8 word"
  ts_bytes :: "8 word"
  ts :: "byte list option"
  len_bytes :: "8 word"
  hash_bytes :: "8 word"
  hash :: "(byte list \<Rightarrow> byte list) option"
  comm_ctrl_bytes :: "8 word"
  frame_start_bytes :: "8 word"
  reset_byte :: byte
  reset_bytes :: "8 word"
  reset :: "unit option"
  buffer :: "byte list"
  buffer_size :: sc_size_t
  message_valid_len :: sc_size_t
  message_max_len :: sc_size_t
  priv :: nat
  buffer_len :: sc_size_t
  message_len :: sc_size_t
  buffer_reset_bytes :: "8 word"
  frame_start :: "byte list"

record sercomm_msg =
  cmd :: sc_cmd_t
  fn :: "nat option"

text \<open>
  What a run of the parser does to the outside: a call of the reset callback, or a call
  \<^verbatim>\<open>fn(ts, mlen, msg, comm_ctrl, priv)\<close> of the command callback \<open>fn\<close>.
\<close>

datatype event =
  ResetCall
  | FnCall nat "byte list" sc_size_t "byte list" sc_cctrl_t nat

subsection \<open>Memory\<close>

text \<open>Reading \<open>n\<close> bytes at offset \<open>off\<close>, and storing the bytes \<open>bs\<close> at offset \<open>off\<close>.\<close>

definition peek :: "byte list \<Rightarrow> nat \<Rightarrow> nat \<Rightarrow> byte list option" where
  "peek mem off n = (if off + n \<le> length mem then Some (take n (drop off mem)) else None)"

definition poke :: "byte list \<Rightarrow> nat \<Rightarrow> byte list \<Rightarrow> byte list option" where
  "poke mem off bs =
     (if off + length bs \<le> length mem
      then Some (take off mem @ bs @ drop (off + length bs) mem) else None)"

text \<open>The object representation of the low \<open>n\<close> bytes of a 32-bit value, and back.\<close>

definition to_bytes :: "endian \<Rightarrow> nat \<Rightarrow> 32 word \<Rightarrow> byte list" where
  "to_bytes e n v =
     (let le = map (\<lambda>i. ucast (drop_bit (8 * i) v)) [0..<n]
      in case e of Little \<Rightarrow> le | Big \<Rightarrow> rev le)"

definition of_bytes :: "endian \<Rightarrow> byte list \<Rightarrow> 32 word" where
  "of_bytes e bs =
     foldr (\<lambda>b acc. ucast b OR push_bit 8 acc) (case e of Little \<Rightarrow> bs | Big \<Rightarrow> rev bs) 0"

subsection \<open>\<^verbatim>\<open>put_field\<close> and \<^verbatim>\<open>get_field\<close>\<close>

definition put_field :: "endian \<Rightarrow> byte list \<Rightarrow> nat \<Rightarrow> 32 word \<Rightarrow> 8 word \<Rightarrow> byte list option" where
  "put_field e dst off src len =
     (if len = 1 then poke dst off (to_bytes e 1 src)
      else if len = 2 then poke dst off (to_bytes e 2 src)
      else if len = 4 then poke dst off (to_bytes e 4 src)
      else Some dst)"

definition get_field :: "endian \<Rightarrow> 32 word \<Rightarrow> byte list \<Rightarrow> nat \<Rightarrow> 8 word \<Rightarrow> 32 word option" where
  "get_field e dst src off len =
     (if len = 1 then map_option (of_bytes e) (peek src off 1)
      else if len = 2 then map_option (of_bytes e) (peek src off 2)
      else if len = 4 then map_option (of_bytes e) (peek src off 4)
      else Some dst)"

subsection \<open>\<^verbatim>\<open>sc_make_message\<close>\<close>

text \<open>
  The result is the returned length and the output array. \<open>msg = None\<close> is the null
  pointer; \<^verbatim>\<open>memcpy\<close> from it with \<open>mlen = 0\<close> copies nothing.
\<close>

definition sc_make_message ::
  "endian \<Rightarrow> sercomm \<Rightarrow> sc_cmd_t \<Rightarrow> sc_cctrl_t \<Rightarrow> byte list option \<Rightarrow> sc_size_t \<Rightarrow>
     byte list \<Rightarrow> sc_size_t \<Rightarrow> (sc_size_t \<times> byte list) option" where
  "sc_make_message e sc c cctrl msg mlen output olen =
     (let sumlen = ucast (frame_start_bytes sc) + ucast (cmd_bytes sc) + ucast (ts_bytes sc) +
                   ucast (len_bytes sc) + mlen + ucast (hash_bytes sc) +
                   ucast (comm_ctrl_bytes sc)
      in if sumlen > olen then Some (0, output)
      else if mlen > 0 \<and> msg = None then Some (0, output)
      else do {
        o1 \<leftarrow> (if frame_start_bytes sc > 0
               then do { s \<leftarrow> peek (frame_start sc) 0 (unat (frame_start_bytes sc));
                         poke output 0 s }
               else Some output);
        let x = (ucast (frame_start_bytes sc) :: sc_size_t);
        o2 \<leftarrow> put_field e o1 (unat x) c (cmd_bytes sc);
        let x = x + ucast (cmd_bytes sc);
        o3 \<leftarrow> (case ts sc of
                 Some t \<Rightarrow> if ts_bytes sc > 0 then poke o2 (unat x) t else Some o2
               | None \<Rightarrow> Some o2);
        let x = x + ucast (ts_bytes sc);
        o4 \<leftarrow> put_field e o3 (unat x) mlen (len_bytes sc);
        let x = x + ucast (len_bytes sc);
        o5 \<leftarrow> (case msg of
                 Some m \<Rightarrow> do { p \<leftarrow> peek m 0 (unat mlen); poke o4 (unat x) p }
               | None \<Rightarrow> Some o4);
        let x = x + mlen;
        o6 \<leftarrow> (if hash_bytes sc > 0
               then poke o5 (unat x) (replicate (unat (hash_bytes sc)) 0)
               else Some o5);
        let x = x + ucast (hash_bytes sc);
        o7 \<leftarrow> (if comm_ctrl_bytes sc > 0
               then put_field e o6 (unat x) cctrl (comm_ctrl_bytes sc)
               else Some o6);
        let x = x - ucast (hash_bytes sc);
        let hashlen = (ucast (cmd_bytes sc) + ucast (ts_bytes sc) + ucast (len_bytes sc) +
                       mlen :: sc_size_t);
        o8 \<leftarrow> (case hash sc of
                 Some h \<Rightarrow>
                   if hash_bytes sc > 0
                   then do { d \<leftarrow> peek o7 (unat (frame_start_bytes sc)) (unat hashlen);
                             poke o7 (unat x) (h d) }
                   else Some o7
               | None \<Rightarrow> Some o7);
        Some (sumlen, o8)
      })"

text \<open>
  The same function, statement by statement: the result holds in addition the output array
  after each of the seven stores that come before the hash (sync pattern, command,
  timestamp, length, payload, zeroed hash field, control value) and, when the hash callback
  is called, the array at the time of the call together with the bytes the callback is
  given to hash.
\<close>

definition sc_make_message_steps ::
  "endian \<Rightarrow> sercomm \<Rightarrow> sc_cmd_t \<Rightarrow> sc_cctrl_t \<Rightarrow> byte list option \<Rightarrow> sc_size_t \<Rightarrow>
     byte list \<Rightarrow> sc_size_t \<Rightarrow>
     (sc_size_t \<times> byte list list \<times> (byte list \<times> byte list) option \<times> byte list) option" where
  "sc_make_message_steps e sc c cctrl msg mlen output olen =
     (let sumlen = ucast (frame_start_bytes sc) + ucast (cmd_bytes sc) + ucast (ts_bytes sc) +
                   ucast (len_bytes sc) + mlen + ucast (hash_bytes sc) +
                   ucast (comm_ctrl_bytes sc)
      in if sumlen > olen then Some (0, [], None, output)
      else if mlen > 0 \<and> msg = None then Some (0, [], None, output)
      else do {
        o1 \<leftarrow> (if frame_start_bytes sc > 0
               then do { s \<leftarrow> peek (frame_start sc) 0 (unat (frame_start_bytes sc));
                         poke output 0 s }
               else Some output);
        let x = (ucast (frame_start_bytes sc) :: sc_size_t);
        o2 \<leftarrow> put_field e o1 (unat x) c (cmd_bytes sc);
        let x = x + ucast (cmd_bytes sc);
        o3 \<leftarrow> (case ts sc of
                 Some t \<Rightarrow> if ts_bytes sc > 0 then poke o2 (unat x) t else Some o2
               | None \<Rightarrow> Some o2);
        let x = x + ucast (ts_bytes sc);
        o4 \<leftarrow> put_field e o3 (unat x) mlen (len_bytes sc);
        let x = x + ucast (len_bytes sc);
        o5 \<leftarrow> (case msg of
                 Some m \<Rightarrow> do { p \<leftarrow> peek m 0 (unat mlen); poke o4 (unat x) p }
               | None \<Rightarrow> Some o4);
        let x = x + mlen;
        o6 \<leftarrow> (if hash_bytes sc > 0
               then poke o5 (unat x) (replicate (unat (hash_bytes sc)) 0)
               else Some o5);
        let x = x + ucast (hash_bytes sc);
        o7 \<leftarrow> (if comm_ctrl_bytes sc > 0
               then put_field e o6 (unat x) cctrl (comm_ctrl_bytes sc)
               else Some o6);
        let x = x - ucast (hash_bytes sc);
        let hashlen = (ucast (cmd_bytes sc) + ucast (ts_bytes sc) + ucast (len_bytes sc) +
                       mlen :: sc_size_t);
        (call, o8) \<leftarrow> (case hash sc of
                 Some h \<Rightarrow>
                   if hash_bytes sc > 0
                   then do { d \<leftarrow> peek o7 (unat (frame_start_bytes sc)) (unat hashlen);
                             w \<leftarrow> poke o7 (unat x) (h d);
                             Some (Some (o7, d), w) }
                   else Some (None, o7)
               | None \<Rightarrow> Some (None, o7));
        Some (sumlen, [o1, o2, o3, o4, o5, o6, o7], call, o8)
      })"

subsection \<open>\<^verbatim>\<open>shift_message\<close>\<close>

text \<open>The \<^verbatim>\<open>for\<close> loop, over the values \<open>i\<close> takes.\<close>

primrec shift_loop :: "byte list \<Rightarrow> nat \<Rightarrow> nat list \<Rightarrow> byte list option" where
  "shift_loop buf offset [] = Some buf"
| "shift_loop buf offset (i # is) =
     (if i < length buf then shift_loop (buf[i - offset := buf ! i]) offset is else None)"

definition shift_message :: "sercomm \<Rightarrow> 8 word \<Rightarrow> 8 word \<Rightarrow> sercomm option" where
  "shift_message sc offset amount = do {
     b \<leftarrow> shift_loop (buffer sc) (unat offset) [unat offset ..< unat amount + unat offset];
     Some (sc\<lparr>buffer := b, buffer_len := buffer_len sc - ucast offset\<rparr>)
   }"

subsection \<open>\<^verbatim>\<open>sc_get_message\<close>\<close>

text \<open>
  The scan of the command table \<^verbatim>\<open>sm\<close>: it stops at the first entry whose \<^verbatim>\<open>fn\<close> is
  null (no callback: \<open>Some None\<close>) or whose \<^verbatim>\<open>cmd\<close> is the command (\<open>Some (Some f)\<close>).
  A table with neither is read past its end.
\<close>

primrec scan_sm :: "sercomm_msg list \<Rightarrow> sc_cmd_t \<Rightarrow> nat option option" where
  "scan_sm [] c = None"
| "scan_sm (m # ms) c =
     (case fn m of
        None \<Rightarrow> Some None
      | Some f \<Rightarrow> if cmd m = c then Some (Some f) else scan_sm ms c)"

text \<open>The three checkpoints: everything after the reset detection.\<close>

definition sc_checkpoints ::
  "endian \<Rightarrow> sercomm \<Rightarrow> sercomm_msg list \<Rightarrow> (event list \<times> sercomm) option" where
  "sc_checkpoints e sc sm =
     (let sum1 = (ucast (frame_start_bytes sc) + ucast (cmd_bytes sc) + ucast (ts_bytes sc) +
                  ucast (len_bytes sc) :: sc_size_t);
          sum2 = (ucast (frame_start_bytes sc) + ucast (cmd_bytes sc) + ucast (ts_bytes sc) +
                  ucast (len_bytes sc) + message_len sc + ucast (hash_bytes sc) +
                  ucast (comm_ctrl_bytes sc) :: sc_size_t)
      in if buffer_len sc = ucast (frame_start_bytes sc) then do {
           a \<leftarrow> peek (buffer sc) 0 (unat (frame_start_bytes sc));
           b \<leftarrow> peek (frame_start sc) 0 (unat (frame_start_bytes sc));
           if a \<noteq> b
           then map_option (Pair []) (shift_message sc 1 (frame_start_bytes sc - 1))
           else Some ([], sc)
         }
         else if buffer_len sc = sum1 then do {
           l \<leftarrow> get_field e (message_len sc) (buffer sc)
                  (unat (sum1 - ucast (len_bytes sc))) (len_bytes sc);
           let sc = sc\<lparr>message_len := l\<rparr>;
           if message_valid_len sc \<noteq> SERCOMM_IGNORE_MSG_VALID_LENGTH
           then (if message_len sc \<noteq> message_valid_len sc
                 then Some ([], sc\<lparr>buffer_len := 0\<rparr>) else Some ([], sc))
           else (if message_len sc > message_max_len sc
                 then Some ([], sc\<lparr>buffer_len := 0\<rparr>) else Some ([], sc))
         }
         else if buffer_len sc = sum2 then
           (case hash sc of
              None \<Rightarrow> Some ([], sc)
            | Some h \<Rightarrow> do {
                let sum2 = (ucast (cmd_bytes sc) + ucast (ts_bytes sc) + ucast (len_bytes sc) +
                            message_len sc :: sc_size_t);
                d \<leftarrow> peek (buffer sc) (unat (frame_start_bytes sc)) (unat sum2);
                b \<leftarrow> poke (buffer sc) (unat (buffer_len sc)) (h d);
                let sc = sc\<lparr>buffer := b\<rparr>;
                let sum2 = sum2 + ucast (frame_start_bytes sc);
                computed \<leftarrow> peek (buffer sc) (unat (buffer_len sc)) (unat (hash_bytes sc));
                received \<leftarrow> peek (buffer sc) (unat sum2) (unat (hash_bytes sc));
                if computed \<noteq> received then Some ([], sc\<lparr>buffer_len := 0\<rparr>)
                else do {
                  c \<leftarrow> get_field e 0 (buffer sc) (unat (frame_start_bytes sc)) (cmd_bytes sc);
                  cc \<leftarrow> (if comm_ctrl_bytes sc > 0
                         then get_field e 0 (buffer sc)
                                (unat (buffer_len sc - ucast (comm_ctrl_bytes sc)))
                                (comm_ctrl_bytes sc)
                         else Some 0);
                  f \<leftarrow> scan_sm sm c;
                  Some (case f of
                          None \<Rightarrow> []
                        | Some g \<Rightarrow>
                            [FnCall g
                               (drop (unat (frame_start_bytes sc) + unat (cmd_bytes sc))
                                  (buffer sc))
                               (message_len sc) (drop (unat sum1) (buffer sc)) cc (priv sc)],
                        sc\<lparr>buffer_len := 0\<rparr>)
                }
              })
         else Some ([], sc))"

definition sc_get_message ::
  "endian \<Rightarrow> sercomm \<Rightarrow> sercomm_msg list \<Rightarrow> byte \<Rightarrow> (event list \<times> sercomm) option" where
  "sc_get_message e sc sm byte = do {
     b \<leftarrow> poke (buffer sc) (unat (buffer_len sc)) [byte];
     let sc = sc\<lparr>buffer := b, buffer_len := buffer_len sc + 1\<rparr>;
     if reset_bytes sc \<noteq> SERCOMM_OMIT_RESET
     then (let sc = sc\<lparr>buffer_reset_bytes :=
                         (if byte = reset_byte sc then buffer_reset_bytes sc + 1 else 0)\<rparr>
           in if reset_bytes sc = buffer_reset_bytes sc
              then Some (case reset sc of None \<Rightarrow> [] | Some u \<Rightarrow> [ResetCall],
                         sc\<lparr>buffer_len := 0\<rparr>)
              else sc_checkpoints e sc sm)
     else sc_checkpoints e sc sm
   }"

text \<open>
  The caller of the header's example (\<^verbatim>\<open>main_get_message\<close>), run over a stream: every
  received byte goes through \<^verbatim>\<open>sc_get_message\<close>, and the events pile up in order.
\<close>

fun sc_feed ::
  "endian \<Rightarrow> sercomm \<Rightarrow> sercomm_msg list \<Rightarrow> byte list \<Rightarrow> (event list \<times> sercomm) option" where
  "sc_feed e sc sm [] = Some ([], sc)"
| "sc_feed e sc sm (b # bs) = do {
     (ev, sc1) \<leftarrow> sc_get_message e sc sm b;
     (evs, sc2) \<leftarrow> sc_feed e sc1 sm bs;
     Some (ev @ evs, sc2)
   }"


subsection \<open>Widths and lengths as natural numbers\<close>

definition field_width :: "8 word \<Rightarrow> bool" where
  "field_width w = (w = 1 \<or> w = 2 \<or> w = 4)"

definition hdr_len :: "sercomm \<Rightarrow> nat" where
  "hdr_len sc = unat (frame_start_bytes sc) + unat (cmd_bytes sc) + unat (ts_bytes sc) +
                unat (len_bytes sc)"

definition frame_len :: "sercomm \<Rightarrow> nat \<Rightarrow> nat" where
  "frame_len sc n = hdr_len sc + n + unat (hash_bytes sc) + unat (comm_ctrl_bytes sc)"

subsection \<open>The frame, field by field\<close>

text \<open>
  A value in the host's native representation, as the specification has the fields: the
  \<open>n\<close> low bytes of the value, the least significant one first on a little-endian host
  and last on a big-endian one.
\<close>

primrec le_bytes :: "nat \<Rightarrow> nat \<Rightarrow> byte list" where
  "le_bytes 0 v = []"
| "le_bytes (Suc n) v = of_nat (v mod 256) # le_bytes n (v div 256)"

definition host_order :: "endian \<Rightarrow> nat \<Rightarrow> nat \<Rightarrow> byte list" where
  "host_order e n v = (case e of Little \<Rightarrow> le_bytes n v | Big \<Rightarrow> rev (le_bytes n v))"

text \<open>
  The frame of the specification: sync pattern, command, timestamp, length, payload,
  hash, control value. The timestamp field holds what the callback stores; with no
  callback the encoder leaves the bytes of the output array there untouched. The hash
  field holds the hash of the bytes from the command field to the end of the payload, or
  zeros when no hash callback is configured.
\<close>

definition ts_field :: "sercomm \<Rightarrow> byte list \<Rightarrow> byte list" where
  "ts_field sc output =
     (case ts sc of
        Some t \<Rightarrow> if ts_bytes sc > 0 then t else []
      | None \<Rightarrow> take (unat (ts_bytes sc))
                 (drop (unat (frame_start_bytes sc) + unat (cmd_bytes sc)) output))"

definition hashed_part ::
  "endian \<Rightarrow> sercomm \<Rightarrow> sc_cmd_t \<Rightarrow> byte list \<Rightarrow> byte list \<Rightarrow> byte list" where
  "hashed_part e sc c m output =
     to_bytes e (unat (cmd_bytes sc)) c @ ts_field sc output @
     to_bytes e (unat (len_bytes sc)) (of_nat (length m)) @ m"

definition hash_field ::
  "endian \<Rightarrow> sercomm \<Rightarrow> sc_cmd_t \<Rightarrow> byte list \<Rightarrow> byte list \<Rightarrow> byte list" where
  "hash_field e sc c m output =
     (case hash sc of
        Some h \<Rightarrow> if hash_bytes sc > 0 then h (hashed_part e sc c m output) else []
      | None \<Rightarrow> replicate (unat (hash_bytes sc)) 0)"

definition spec_frame ::
  "endian \<Rightarrow> sercomm \<Rightarrow> sc_cmd_t \<Rightarrow> sc_cctrl_t \<Rightarrow> byte list \<Rightarrow> byte list \<Rightarrow> byte list" where
  "spec_frame e sc c cctrl m output =
     take (unat (frame_start_bytes sc)) (frame_start sc) @ hashed_part e sc c m output @
     hash_field e sc c m output @ to_bytes e (unat (comm_ctrl_bytes sc)) cctrl"

text \<open>
  What the encoder needs of a configuration, beyond the checks it makes itself: field
  widths that \<^verbatim>\<open>put_field\<close> knows, a sync pattern as long as announced, and callbacks
  that store as many bytes as their field has.
\<close>

definition encodable ::
  "endian \<Rightarrow> sercomm \<Rightarrow> sc_cmd_t \<Rightarrow> byte list \<Rightarrow> byte list \<Rightarrow> bool" where
  "encodable e sc c m output =
     (field_width (cmd_bytes sc) \<and> field_width (len_bytes sc) \<and>
      (comm_ctrl_bytes sc = 0 \<or> field_width (comm_ctrl_bytes sc)) \<and>
      unat (frame_start_bytes sc) \<le> length (frame_start sc) \<and>
      length (ts_field sc output) = unat (ts_bytes sc) \<and>
      length (hash_field e sc c m output) = unat (hash_bytes sc) \<and>
      frame_len sc (length m) < 2 ^ 32 \<and>
      frame_len sc (length m) \<le> length output)"



subsection \<open>The reset detection, byte by byte\<close>

text \<open>
  The counter \<^verbatim>\<open>buffer_reset_bytes\<close> after one more byte, for a run length \<open>n\<close> and a
  reset byte \<open>rb\<close>; whether that byte completes the run; the counter after a sequence
  of bytes; and whether a sequence of bytes gets through without completing a run.
\<close>

definition next_count :: "8 word \<Rightarrow> byte \<Rightarrow> 8 word \<Rightarrow> byte \<Rightarrow> 8 word" where
  "next_count n rb cnt b =
     (if n = SERCOMM_OMIT_RESET then cnt else if b = rb then cnt + 1 else 0)"

definition fires :: "8 word \<Rightarrow> byte \<Rightarrow> 8 word \<Rightarrow> byte \<Rightarrow> bool" where
  "fires n rb cnt b = (n \<noteq> SERCOMM_OMIT_RESET \<and> n = next_count n rb cnt b)"

primrec run_count :: "8 word \<Rightarrow> byte \<Rightarrow> 8 word \<Rightarrow> byte list \<Rightarrow> 8 word" where
  "run_count n rb cnt [] = cnt"
| "run_count n rb cnt (b # bs) = run_count n rb (next_count n rb cnt b) bs"

primrec quiet :: "8 word \<Rightarrow> byte \<Rightarrow> 8 word \<Rightarrow> byte list \<Rightarrow> bool" where
  "quiet n rb cnt [] = True"
| "quiet n rb cnt (b # bs) = (\<not> fires n rb cnt b \<and> quiet n rb (next_count n rb cnt b) bs)"

text \<open>The state when the byte is stored and the reset detection has counted it.\<close>

definition appended :: "sercomm \<Rightarrow> byte \<Rightarrow> sercomm" where
  "appended sc b =
     sc\<lparr>buffer := (buffer sc)[unat (buffer_len sc) := b],
        buffer_len := buffer_len sc + 1,
        buffer_reset_bytes :=
          next_count (reset_bytes sc) (reset_byte sc) (buffer_reset_bytes sc) b\<rparr>"


subsection \<open>The length policy and the command table, as the specification words them\<close>

text \<open>
  The payload length must equal the fixed length when one is configured, and must not
  exceed the maximum otherwise.
\<close>

definition length_ok :: "sercomm \<Rightarrow> sc_size_t \<Rightarrow> bool" where
  "length_ok sc l =
     (if message_valid_len sc \<noteq> SERCOMM_IGNORE_MSG_VALID_LENGTH
      then l = message_valid_len sc else l \<le> message_max_len sc)"

text \<open>
  The table is the entries before the first one without a callback; the handler of a
  command is the callback of the first of them with that command code.
\<close>

definition first_handler :: "sercomm_msg list \<Rightarrow> sc_cmd_t \<Rightarrow> nat option" where
  "first_handler sm c =
     (case find (\<lambda>m. cmd m = c) (takeWhile (\<lambda>m. fn m \<noteq> None) sm) of
        None \<Rightarrow> None
      | Some m \<Rightarrow> fn m)"

definition terminated :: "sercomm_msg list \<Rightarrow> bool" where
  "terminated sm = (\<exists>m \<in> set sm. fn m = None)"




subsection \<open>A frame that the parser can take\<close>

text \<open>
  What the parser needs to dispatch the frame that the encoder makes of a command \<open>c\<close>, a
  control value \<open>cctrl\<close> and a payload \<open>m\<close>: a configuration the encoder can use and a
  hash callback that stores as many bytes as the hash field has; a command, a length and a
  control value that fit their fields; a payload length that the length policy admits and a
  frame longer than its header; an empty buffer with room for the frame and the recomputed
  hash behind it; a payload length left over from earlier frames that does not wrap the
  completion threshold around; no completed reset run among the bytes of the frame; and a
  command table that ends, or has the command.
\<close>

definition receivable ::
  "endian \<Rightarrow> sercomm \<Rightarrow> sercomm_msg list \<Rightarrow> sc_cmd_t \<Rightarrow> sc_cctrl_t \<Rightarrow> byte list \<Rightarrow> byte list \<Rightarrow> bool" where
  "receivable e sc sm c cctrl m output =
     (encodable e sc c m output \<and>
      (case hash sc of
         None \<Rightarrow> False
       | Some h \<Rightarrow> length (h (hashed_part e sc c m output)) = unat (hash_bytes sc)) \<and>
      unat c < 2 ^ (8 * unat (cmd_bytes sc)) \<and>
      length m < 2 ^ (8 * unat (len_bytes sc)) \<and>
      (comm_ctrl_bytes sc = 0 \<or> unat cctrl < 2 ^ (8 * unat (comm_ctrl_bytes sc))) \<and>
      length_ok sc (of_nat (length m)) \<and>
      0 < length m + unat (hash_bytes sc) + unat (comm_ctrl_bytes sc) \<and>
      buffer_len sc = 0 \<and>
      frame_len sc (unat (message_len sc)) < 2 ^ 32 \<and>
      frame_len sc (length m) + unat (hash_bytes sc) \<le> length (buffer sc) \<and>
      quiet (reset_bytes sc) (reset_byte sc) (buffer_reset_bytes sc)
        (spec_frame e sc c cctrl m output) \<and>
      (terminated sm \<or> first_handler sm c \<noteq> None))"

text \<open>
  The buffer when the frame is complete and its hash recomputed behind it, and the call of
  the callback registered for the command: the pointers to the timestamp field and to the
  payload, the payload length, the control value (0 without a control field) and
  \<^verbatim>\<open>priv\<close>.
\<close>

definition rx_buffer ::
  "endian \<Rightarrow> sercomm \<Rightarrow> sc_cmd_t \<Rightarrow> sc_cctrl_t \<Rightarrow> byte list \<Rightarrow> byte list \<Rightarrow> byte list" where
  "rx_buffer e sc c cctrl m output =
     spec_frame e sc c cctrl m output @ hash_field e sc c m output @
     drop (frame_len sc (length m) + unat (hash_bytes sc)) (buffer sc)"

definition dispatch ::
  "endian \<Rightarrow> sercomm \<Rightarrow> sercomm_msg list \<Rightarrow> sc_cmd_t \<Rightarrow> sc_cctrl_t \<Rightarrow> byte list \<Rightarrow> byte list \<Rightarrow>
     event list" where
  "dispatch e sc sm c cctrl m output =
     (case first_handler sm c of
        None \<Rightarrow> []
      | Some g \<Rightarrow>
          [FnCall g
             (drop (unat (frame_start_bytes sc) + unat (cmd_bytes sc))
                (rx_buffer e sc c cctrl m output))
             (of_nat (length m))
             (drop (hdr_len sc) (rx_buffer e sc c cctrl m output))
             (if comm_ctrl_bytes sc = 0 then 0 else cctrl)
             (priv sc)])"

subsection \<open>Counting the calls of the reset callback\<close>

text \<open>
  The number of calls of the reset callback in a trace, and the number of bytes of a
  sequence that complete a reset run.
\<close>

definition resets :: "event list \<Rightarrow> nat" where
  "resets evs = length (filter (\<lambda>ev. ev = ResetCall) evs)"

primrec fire_count :: "8 word \<Rightarrow> byte \<Rightarrow> 8 word \<Rightarrow> byte list \<Rightarrow> nat" where
  "fire_count n rb cnt [] = 0"
| "fire_count n rb cnt (b # bs) =
     (if fires n rb cnt b then 1 else 0) + fire_count n rb (next_count n rb cnt b) bs"

subsection \<open>Example configurations\<close>

text \<open>
  The configuration of the specification's example: sync pattern \<open>00 01\<close>, one byte of
  command, one byte of length, no timestamp, no hash and no control field, no reset
  sequence, messages of at most four bytes, and a table with a callback for command 5.
\<close>

definition example_sc :: sercomm where
  "example_sc =
     \<lparr>cmd_bytes = 1, ts_bytes = 0, ts = None, len_bytes = 1, hash_bytes = 0, hash = None,
      comm_ctrl_bytes = 0, frame_start_bytes = 2, reset_byte = 0xFF,
      reset_bytes = SERCOMM_OMIT_RESET, reset = None, buffer = [0, 0, 0, 0, 0, 0, 0, 0],
      buffer_size = 8, message_valid_len = SERCOMM_IGNORE_MSG_VALID_LENGTH,
      message_max_len = 4, priv = 0, buffer_len = 0, message_len = 0,
      buffer_reset_bytes = 0, frame_start = [0x00, 0x01]\<rparr>"

definition example_sm :: "sercomm_msg list" where
  "example_sm = [\<lparr>cmd = 5, fn = Some 1\<rparr>, \<lparr>cmd = 0, fn = None\<rparr>]"

text \<open>
  A configuration with every field: a two-byte timestamp, a one-byte hash (the sum of the
  hashed bytes), a one-byte control field, and a reset sequence of two bytes \<open>FF\<close>.
\<close>

definition sum8 :: "byte list \<Rightarrow> byte list" where
  "sum8 d = [foldr (+) d 0]"

definition full_sc :: sercomm where
  "full_sc =
     \<lparr>cmd_bytes = 1, ts_bytes = 2, ts = Some [0x12, 0x34], len_bytes = 1, hash_bytes = 1,
      hash = Some sum8, comm_ctrl_bytes = 1, frame_start_bytes = 2, reset_byte = 0xFF,
      reset_bytes = 2, reset = Some (), buffer = [0, 0, 0, 0, 0, 0, 0, 0, 0, 0, 0, 0],
      buffer_size = 12, message_valid_len = SERCOMM_IGNORE_MSG_VALID_LENGTH,
      message_max_len = 2, priv = 9, buffer_len = 0, message_len = 0,
      buffer_reset_bytes = 0, frame_start = [0x00, 0x01]\<rparr>"


definition full_sm :: "sercomm_msg list" where
  "full_sm = [\<lparr>cmd = 6, fn = Some 2\<rparr>, \<lparr>cmd = 5, fn = Some 1\<rparr>, \<lparr>cmd = 5, fn = Some 3\<rparr>,
              \<lparr>cmd = 0, fn = None\<rparr>]"

text \<open>States of the parser in the middle of a frame.\<close>

definition c3_state :: sercomm where
  "c3_state = full_sc\<lparr>buffer := [0x00, 0x01, 0x05, 0x12, 0x34, 0x02, 0xAA, 0xBB, 0xB2, 0, 0, 0],
                       buffer_len := 9, message_len := 2\<rparr>"

definition c4_state :: sercomm where
  "c4_state = example_sc\<lparr>buffer := [0x00, 0x01, 0x05, 0x02, 0xAA, 0, 0, 0],
                          buffer_len := 5, message_len := 2\<rparr>"

definition c8_state :: sercomm where
  "c8_state = full_sc\<lparr>buffer := [0x07, 0, 0, 0, 0, 0, 0, 0, 0, 0, 0, 0], buffer_len := 1,
                       buffer_reset_bytes := 1\<rparr>"

text \<open>The full configuration without a control field.\<close>

definition noctrl_sc :: sercomm where
  "noctrl_sc = full_sc\<lparr>comm_ctrl_bytes := 0\<rparr>"

text \<open>
  The parser one byte before the end of the header, the parser after a header whose
  length is refused, and the parser after a reset sequence.
\<close>

definition c7_state :: sercomm where
  "c7_state = full_sc\<lparr>buffer := [0x00, 0x01, 0x05, 0x12, 0x34, 0, 0, 0, 0, 0, 0, 0],
                       buffer_len := 5\<rparr>"

definition c7_flushed :: sercomm where
  "c7_flushed = full_sc\<lparr>buffer := [0x00, 0x01, 0x05, 0x12, 0x34, 0x09, 0, 0, 0, 0, 0, 0],
                         buffer_len := 0, message_len := 9\<rparr>"

definition c9_flushed :: sercomm where
  "c9_flushed = full_sc\<lparr>buffer := [0xFF, 0xFF, 0, 0, 0, 0, 0, 0, 0, 0, 0, 0],
                         buffer_len := 0, buffer_reset_bytes := 2\<rparr>"

text \<open>
  The full configuration with two bytes of command, two bytes of length and four bytes
  of control value; the example's parser one byte before the end of the header, with no
  payload length left from an earlier frame; and the example's parser one byte before the
  end of a frame, with a reset sequence of one byte \<open>BB\<close>.
\<close>

definition wide_sc :: sercomm where
  "wide_sc = full_sc\<lparr>cmd_bytes := 2, len_bytes := 2, comm_ctrl_bytes := 4\<rparr>"

definition c4_header_state :: sercomm where
  "c4_header_state = example_sc\<lparr>buffer := [0x00, 0x01, 0x05, 0, 0, 0, 0, 0], buffer_len := 3\<rparr>"

definition c4_reset_state :: sercomm where
  "c4_reset_state = c4_state\<lparr>reset_byte := 0xBB, reset_bytes := 1\<rparr>"

subsection \<open>Words\<close>

lemma unat_8_bound: "unat (w :: 8 word) < 256"
  using unsigned_less [of w, where 'a = nat] by simp

lemma unat_32_bound: "unat (w :: 32 word) < 4294967296"
  using unsigned_less [of w, where 'a = nat] by simp

lemma unat_ucast_8_32 [simp]: "unat (ucast (w :: 8 word) :: 32 word) = unat w"
proof -
  have "unat w < 2 ^ 32" using unat_8_bound [of w] by simp
  then show ?thesis by (simp add: unsigned_ucast_eq take_bit_nat_eq_self)
qed

lemma unat_add_32: "unat (a + b :: 32 word) = (unat a + unat b) mod 4294967296"
  by (simp add: unat_word_ariths)

lemma unat_add_32_small:
  "unat a + unat b < 4294967296 \<Longrightarrow> unat (a + b :: 32 word) = unat a + unat b"
  by (simp add: unat_add_32)

lemma unat_of_nat_32: "n < 4294967296 \<Longrightarrow> unat (of_nat n :: 32 word) = n"
  by (simp add: unat_of_nat)

lemma field_width_cases: "field_width w \<Longrightarrow> unat w = 1 \<or> unat w = 2 \<or> unat w = 4"
  by (auto simp: field_width_def)

subsection \<open>Memory\<close>

lemma poke_piece:
  "length pre = off \<Longrightarrow> length bs = length old \<Longrightarrow>
     poke (pre @ old @ rest) off bs = Some (pre @ bs @ rest)"
  by (simp add: poke_def)

lemma peek_piece:
  "length pre = off \<Longrightarrow> length bs = n \<Longrightarrow> peek (pre @ bs @ rest) off n = Some bs"
  by (simp add: peek_def)

lemma length_to_bytes [simp]: "length (to_bytes e n v) = n"
  by (cases e) (simp_all add: to_bytes_def)

lemma put_field_piece:
  "field_width w \<Longrightarrow> length pre = off \<Longrightarrow> length old = unat w \<Longrightarrow>
     put_field e (pre @ old @ rest) off v w = Some (pre @ to_bytes e (unat w) v @ rest)"
  unfolding field_width_def put_field_def
  by (elim disjE; simp add: poke_piece)

lemma peek_length: "peek mem off n = Some bs \<Longrightarrow> length bs = n"
  by (auto simp: peek_def split: if_splits)

lemma split7:
  assumes "a + b + c + d + n + h + k \<le> length (xs :: 'a list)"
  obtains A B C D N H K R where "xs = A @ B @ C @ D @ N @ H @ K @ R"
    "length A = a" "length B = b" "length C = c" "length D = d" "length N = n"
    "length H = h" "length K = k" "R = drop (a + b + c + d + n + h + k) xs"
proof
  let ?x1 = "drop a xs" let ?x2 = "drop b ?x1" let ?x3 = "drop c ?x2" let ?x4 = "drop d ?x3"
  let ?x5 = "drop n ?x4" let ?x6 = "drop h ?x5" let ?x7 = "drop k ?x6"
  show "xs = take a xs @ take b ?x1 @ take c ?x2 @ take d ?x3 @ take n ?x4 @ take h ?x5 @ take k ?x6 @ ?x7"
    by (simp del: drop_drop)
  show "length (take a xs) = a" "length (take b ?x1) = b" "length (take c ?x2) = c"
    "length (take d ?x3) = d" "length (take n ?x4) = n" "length (take h ?x5) = h"
    "length (take k ?x6) = k"
    using assms by simp_all
  show "?x7 = drop (a + b + c + d + n + h + k) xs"
    by (simp add: add.commute add.left_commute)
qed

lemma to_bytes_0 [simp]: "to_bytes e 0 v = []"
  by (cases e) (simp_all add: to_bytes_def)

lemma word8_gt0: "(0 < (w :: 8 word)) = (unat w \<noteq> 0)"
  by (simp add: word_less_nat_alt)

lemma make_message_frame:
  assumes enc: "encodable e sc c m output" and olen: "frame_len sc (length m) \<le> unat olen"
  shows "sc_make_message e sc c cctrl (Some m) (of_nat (length m)) output olen =
           Some (of_nat (frame_len sc (length m)),
                 spec_frame e sc c cctrl m output @ drop (frame_len sc (length m)) output)"
proof -
  let ?a = "unat (frame_start_bytes sc)" and ?b = "unat (cmd_bytes sc)"
  let ?c = "unat (ts_bytes sc)" and ?d = "unat (len_bytes sc)"
  let ?h = "unat (hash_bytes sc)" and ?k = "unat (comm_ctrl_bytes sc)"
  let ?n = "length m"
  let ?tot = "frame_len sc ?n"
  from enc have wc: "field_width (cmd_bytes sc)" and wl: "field_width (len_bytes sc)"
    and wk: "comm_ctrl_bytes sc = 0 \<or> field_width (comm_ctrl_bytes sc)"
    and fs: "?a \<le> length (frame_start sc)"
    and lt: "length (ts_field sc output) = ?c"
    and lh: "length (hash_field e sc c m output) = ?h"
    and small: "?tot < 4294967296" and fits: "?tot \<le> length output"
    by (simp_all add: encodable_def)
  have tot: "?tot = ?a + ?b + ?c + ?d + ?n + ?h + ?k"
    by (simp add: frame_len_def hdr_len_def)
  from fits obtain A B C D N H K R where out: "output = A @ B @ C @ D @ N @ H @ K @ R"
    and len: "length A = ?a" "length B = ?b" "length C = ?c" "length D = ?d" "length N = ?n"
      "length H = ?h" "length K = ?k" and R: "R = drop ?tot output"
    unfolding tot by (rule split7)
  let ?S = "take ?a (frame_start sc)"
  let ?Cf = "to_bytes e ?b c"
  let ?T = "ts_field sc output"
  let ?L = "to_bytes e ?d (of_nat ?n :: 32 word)"
  let ?Hz = "replicate ?h (0 :: byte)"
  let ?Hf = "hash_field e sc c m output"
  let ?Kf = "to_bytes e ?k cctrl"
  have n32: "unat (of_nat ?n :: 32 word) = ?n"
    using small tot by (simp add: unat_of_nat_32)
  have x1: "unat (ucast (frame_start_bytes sc) + ucast (cmd_bytes sc) :: 32 word) = ?a + ?b"
    using small tot by (simp add: unat_add_32_small)
  have x2: "unat (ucast (frame_start_bytes sc) + ucast (cmd_bytes sc) + ucast (ts_bytes sc) :: 32 word)
      = ?a + ?b + ?c"
    using small tot by (simp add: unat_add_32_small)
  have x3: "unat (ucast (frame_start_bytes sc) + ucast (cmd_bytes sc) + ucast (ts_bytes sc) +
      ucast (len_bytes sc) :: 32 word) = ?a + ?b + ?c + ?d"
    using small tot by (simp add: unat_add_32_small)
  have x4: "unat (ucast (frame_start_bytes sc) + ucast (cmd_bytes sc) + ucast (ts_bytes sc) +
      ucast (len_bytes sc) + of_nat ?n :: 32 word) = ?a + ?b + ?c + ?d + ?n"
    using small tot n32 by (simp add: unat_add_32_small)
  have x5: "unat (ucast (frame_start_bytes sc) + ucast (cmd_bytes sc) + ucast (ts_bytes sc) +
      ucast (len_bytes sc) + of_nat ?n + ucast (hash_bytes sc) :: 32 word) = ?a + ?b + ?c + ?d + ?n + ?h"
    using small tot n32 by (simp add: unat_add_32_small)
  have x6: "unat (ucast (frame_start_bytes sc) + ucast (cmd_bytes sc) + ucast (ts_bytes sc) +
      ucast (len_bytes sc) + of_nat ?n + ucast (hash_bytes sc) + ucast (comm_ctrl_bytes sc) :: 32 word) = ?tot"
    using small tot n32 by (simp add: unat_add_32_small)
  have hl: "unat (ucast (cmd_bytes sc) + ucast (ts_bytes sc) +
      ucast (len_bytes sc) + of_nat ?n :: 32 word) = ?b + ?c + ?d + ?n"
    using small tot n32 by (simp add: unat_add_32_small)
  have sumlen: "(ucast (frame_start_bytes sc) + ucast (cmd_bytes sc) + ucast (ts_bytes sc) +
      ucast (len_bytes sc) + of_nat ?n + ucast (hash_bytes sc) + ucast (comm_ctrl_bytes sc) :: 32 word)
      = of_nat ?tot"
    using x6 by (metis of_nat_unat ucast_id)
  have chk: "\<not> olen < (ucast (frame_start_bytes sc) + ucast (cmd_bytes sc) + ucast (ts_bytes sc) +
      ucast (len_bytes sc) + of_nat ?n + ucast (hash_bytes sc) + ucast (comm_ctrl_bytes sc) :: 32 word)"
    using olen by (simp add: word_less_nat_alt x6)
  \<comment> \<open>the stores, one field after the other\<close>
  have s1: "(if 0 < frame_start_bytes sc
             then peek (frame_start sc) 0 ?a \<bind> poke output 0 else Some output)
            = Some (?S @ B @ C @ D @ N @ H @ K @ R)"
  proof (cases "0 < frame_start_bytes sc")
    case True
    have "poke ([] @ A @ B @ C @ D @ N @ H @ K @ R) 0 ?S = Some ([] @ ?S @ B @ C @ D @ N @ H @ K @ R)"
      by (rule poke_piece) (use fs len(1) in simp_all)
    with True fs show ?thesis by (simp add: peek_def out)
  next
    case False
    then have "?a = 0" by (simp add: word8_gt0)
    with False len(1) show ?thesis by (simp add: out)
  qed
  have s2: "put_field e (?S @ B @ C @ D @ N @ H @ K @ R) ?a c (cmd_bytes sc)
      = Some (?S @ ?Cf @ C @ D @ N @ H @ K @ R)"
    by (rule put_field_piece [OF wc]) (use fs len(2) in simp_all)
  have Ceq: "take ?c (drop (?a + ?b) output) = C"
    using len(1,2,3) by (simp add: out)
  have s3: "(case ts sc of
               Some t \<Rightarrow> if 0 < ts_bytes sc then poke (?S @ ?Cf @ C @ D @ N @ H @ K @ R) (?a + ?b) t
                         else Some (?S @ ?Cf @ C @ D @ N @ H @ K @ R)
             | None \<Rightarrow> Some (?S @ ?Cf @ C @ D @ N @ H @ K @ R))
            = Some (?S @ ?Cf @ ?T @ D @ N @ H @ K @ R)"
  proof (cases "ts sc")
    case None
    then show ?thesis by (simp add: ts_field_def Ceq)
  next
    case (Some t)
    show ?thesis
    proof (cases "0 < ts_bytes sc")
      case True
      with Some lt have t: "?T = t" "length t = length C" by (simp_all add: ts_field_def len)
      have "poke ((?S @ ?Cf) @ C @ D @ N @ H @ K @ R) (?a + ?b) t = Some ((?S @ ?Cf) @ t @ D @ N @ H @ K @ R)"
        by (rule poke_piece) (use fs t in simp_all)
      with Some True t show ?thesis by simp
    next
      case False
      then have "?c = 0" by (simp add: word8_gt0)
      with Some False len(3) show ?thesis by (simp add: ts_field_def)
    qed
  qed
  have s4: "put_field e (?S @ ?Cf @ ?T @ D @ N @ H @ K @ R) (?a + ?b + ?c) (of_nat ?n) (len_bytes sc)
      = Some (?S @ ?Cf @ ?T @ ?L @ N @ H @ K @ R)"
  proof -
    have "put_field e ((?S @ ?Cf @ ?T) @ D @ N @ H @ K @ R) (?a + ?b + ?c) (of_nat ?n) (len_bytes sc)
      = Some ((?S @ ?Cf @ ?T) @ ?L @ N @ H @ K @ R)"
      by (rule put_field_piece [OF wl]) (use fs lt len(4) in simp_all)
    then show ?thesis by simp
  qed
  have s5: "peek m 0 ?n \<bind> poke (?S @ ?Cf @ ?T @ ?L @ N @ H @ K @ R) (?a + ?b + ?c + ?d)
      = Some (?S @ ?Cf @ ?T @ ?L @ m @ H @ K @ R)"
  proof -
    have "poke ((?S @ ?Cf @ ?T @ ?L) @ N @ H @ K @ R) (?a + ?b + ?c + ?d) m
      = Some ((?S @ ?Cf @ ?T @ ?L) @ m @ H @ K @ R)"
      by (rule poke_piece) (use fs lt len(5) in simp_all)
    then show ?thesis by (simp add: peek_def)
  qed
  have s6: "(if 0 < hash_bytes sc
             then poke (?S @ ?Cf @ ?T @ ?L @ m @ H @ K @ R) (?a + ?b + ?c + ?d + ?n) ?Hz
             else Some (?S @ ?Cf @ ?T @ ?L @ m @ H @ K @ R))
      = Some (?S @ ?Cf @ ?T @ ?L @ m @ ?Hz @ K @ R)"
  proof (cases "0 < hash_bytes sc")
    case True
    have "poke ((?S @ ?Cf @ ?T @ ?L @ m) @ H @ K @ R) (?a + ?b + ?c + ?d + ?n) ?Hz
      = Some ((?S @ ?Cf @ ?T @ ?L @ m) @ ?Hz @ K @ R)"
      by (rule poke_piece) (use fs lt len(6) in simp_all)
    with True show ?thesis by simp
  next
    case False
    then have "?h = 0" by (simp add: word8_gt0)
    with False len(6) show ?thesis by simp
  qed
  have s7: "(if 0 < comm_ctrl_bytes sc
             then put_field e (?S @ ?Cf @ ?T @ ?L @ m @ ?Hz @ K @ R) (?a + ?b + ?c + ?d + ?n + ?h)
                    cctrl (comm_ctrl_bytes sc)
             else Some (?S @ ?Cf @ ?T @ ?L @ m @ ?Hz @ K @ R))
      = Some (?S @ ?Cf @ ?T @ ?L @ m @ ?Hz @ ?Kf @ R)"
  proof (cases "0 < comm_ctrl_bytes sc")
    case True
    with wk have w: "field_width (comm_ctrl_bytes sc)" by auto
    have "put_field e ((?S @ ?Cf @ ?T @ ?L @ m @ ?Hz) @ K @ R) (?a + ?b + ?c + ?d + ?n + ?h)
                    cctrl (comm_ctrl_bytes sc)
      = Some ((?S @ ?Cf @ ?T @ ?L @ m @ ?Hz) @ ?Kf @ R)"
      by (rule put_field_piece [OF w]) (use fs lt len(7) in simp_all)
    with True show ?thesis by simp
  next
    case False
    then have "?k = 0" by (simp add: word8_gt0)
    with False len(7) show ?thesis by simp
  qed
  have hp: "hashed_part e sc c m output = ?Cf @ ?T @ ?L @ m"
    by (simp add: hashed_part_def)
  have s8: "(case hash sc of
               Some h \<Rightarrow>
                 if 0 < hash_bytes sc
                 then peek (?S @ ?Cf @ ?T @ ?L @ m @ ?Hz @ ?Kf @ R) ?a (?b + ?c + ?d + ?n) \<bind>
                      (\<lambda>d. poke (?S @ ?Cf @ ?T @ ?L @ m @ ?Hz @ ?Kf @ R) (?a + ?b + ?c + ?d + ?n) (h d))
                 else Some (?S @ ?Cf @ ?T @ ?L @ m @ ?Hz @ ?Kf @ R)
             | None \<Rightarrow> Some (?S @ ?Cf @ ?T @ ?L @ m @ ?Hz @ ?Kf @ R))
      = Some (?S @ ?Cf @ ?T @ ?L @ m @ ?Hf @ ?Kf @ R)"
  proof (cases "hash sc")
    case None
    then show ?thesis by (simp add: hash_field_def)
  next
    case (Some h)
    show ?thesis
    proof (cases "0 < hash_bytes sc")
      case True
      have pk: "peek (?S @ (?Cf @ ?T @ ?L @ m) @ ?Hz @ ?Kf @ R) ?a (?b + ?c + ?d + ?n)
          = Some (?Cf @ ?T @ ?L @ m)"
        by (rule peek_piece) (use fs lt in simp_all)
      have hf: "?Hf = h (?Cf @ ?T @ ?L @ m)"
        using Some True by (simp add: hash_field_def hp)
      have "poke ((?S @ ?Cf @ ?T @ ?L @ m) @ ?Hz @ ?Kf @ R) (?a + ?b + ?c + ?d + ?n) ?Hf
          = Some ((?S @ ?Cf @ ?T @ ?L @ m) @ ?Hf @ ?Kf @ R)"
        by (rule poke_piece) (use fs lt lh in simp_all)
      with pk Some True hf show ?thesis by simp
    next
      case False
      then have "?h = 0" by (simp add: word8_gt0)
      with Some False show ?thesis by (simp add: hash_field_def)
    qed
  qed
  have chk': "\<not> olen < (of_nat ?tot :: 32 word)"
    using chk unfolding sumlen .
  have "sc_make_message e sc c cctrl (Some m) (of_nat (length m)) output olen =
          Some (of_nat ?tot, ?S @ ?Cf @ ?T @ ?L @ m @ ?Hf @ ?Kf @ R)"
    unfolding sc_make_message_def Let_def
    by (simp only: chk' if_False x1 x2 x3 x4 x5 hl n32 unat_ucast_8_32 add_diff_cancel_right'
         s1 s2 s3 s4 s5 s6 s7 s8 Option.bind.simps option.simps sumlen simp_thms)
  then show ?thesis
    by (simp add: spec_frame_def hp R)
qed

lemma poke_single: "k < length mem \<Longrightarrow> poke mem k [b] = Some (mem[k := b])"
  by (simp add: poke_def upd_conv_take_nth_drop)

lemma poke_single_None: "\<not> k < length mem \<Longrightarrow> poke mem k [b] = None"
  by (simp add: poke_def)

lemma sc_get_message_unfold:
  "sc_get_message e sc sm b =
     (if unat (buffer_len sc) < length (buffer sc)
      then if fires (reset_bytes sc) (reset_byte sc) (buffer_reset_bytes sc) b
           then Some (case reset sc of None \<Rightarrow> [] | Some u \<Rightarrow> [ResetCall],
                      (appended sc b)\<lparr>buffer_len := 0\<rparr>)
           else sc_checkpoints e (appended sc b) sm
      else None)"
proof (cases "unat (buffer_len sc) < length (buffer sc)")
  case False
  then show ?thesis by (simp add: sc_get_message_def poke_single_None)
next
  case True
  show ?thesis
  proof (cases "reset_bytes sc = SERCOMM_OMIT_RESET")
    case off: True
    with True show ?thesis
      unfolding sc_get_message_def
      apply (simp add: poke_single)
      apply (simp add: fires_def next_count_def appended_def)
      done
  next
    case on: False
    with True show ?thesis
      unfolding sc_get_message_def
      apply (simp add: poke_single)
      apply (simp add: fires_def next_count_def appended_def)
      done
  qed
qed

lemma sum1_unat:
  "unat (ucast (frame_start_bytes sc) + ucast (cmd_bytes sc) + ucast (ts_bytes sc) +
         ucast (len_bytes sc) :: 32 word) = hdr_len sc"
  using unat_8_bound [of "frame_start_bytes sc"] unat_8_bound [of "cmd_bytes sc"]
    unat_8_bound [of "ts_bytes sc"] unat_8_bound [of "len_bytes sc"]
  by (simp add: unat_add_32_small hdr_len_def)

lemma sum2_unat:
  "unat (ucast (frame_start_bytes sc) + ucast (cmd_bytes sc) + ucast (ts_bytes sc) +
         ucast (len_bytes sc) + message_len sc + ucast (hash_bytes sc) +
         ucast (comm_ctrl_bytes sc) :: 32 word)
     = frame_len sc (unat (message_len sc)) mod 4294967296"
proof -
  have "unat (ucast (frame_start_bytes sc) + ucast (cmd_bytes sc) + ucast (ts_bytes sc) +
         ucast (len_bytes sc) + message_len sc + ucast (hash_bytes sc) +
         ucast (comm_ctrl_bytes sc) :: 32 word)
     = (hdr_len sc + unat (message_len sc) + unat (hash_bytes sc) +
        unat (comm_ctrl_bytes sc)) mod 4294967296"
    unfolding unat_add_32 [of _ "ucast (comm_ctrl_bytes sc)"]
      unat_add_32 [of _ "ucast (hash_bytes sc)"] unat_add_32 [of _ "message_len sc"] sum1_unat
    by (simp add: mod_simps)
  then show ?thesis by (simp add: frame_len_def)
qed

lemma cp_idle:
  assumes "unat (buffer_len sc) \<noteq> unat (frame_start_bytes sc)"
    and "unat (buffer_len sc) \<noteq> hdr_len sc"
    and "unat (buffer_len sc) \<noteq> frame_len sc (unat (message_len sc)) mod 4294967296"
  shows "sc_checkpoints e sc sm = Some ([], sc)"
proof -
  have a: "buffer_len sc \<noteq> ucast (frame_start_bytes sc)"
    using assms(1) by (auto simp: word_unat_eq_iff)
  have b: "buffer_len sc \<noteq> ucast (frame_start_bytes sc) + ucast (cmd_bytes sc) +
      ucast (ts_bytes sc) + ucast (len_bytes sc)"
    using assms(2) sum1_unat [of sc] by auto
  have c: "buffer_len sc \<noteq> ucast (frame_start_bytes sc) + ucast (cmd_bytes sc) +
      ucast (ts_bytes sc) + ucast (len_bytes sc) + message_len sc + ucast (hash_bytes sc) +
         ucast (comm_ctrl_bytes sc)"
    using assms(3) sum2_unat [of sc] by auto
  show ?thesis
    unfolding sc_checkpoints_def Let_def by (simp only: a b c if_False)
qed


lemma scan_sm_first_handler:
  "terminated sm \<or> first_handler sm c \<noteq> None \<Longrightarrow> scan_sm sm c = Some (first_handler sm c)"
proof (induction sm)
  case Nil
  then show ?case by (simp add: terminated_def first_handler_def)
next
  case (Cons m ms)
  show ?case
  proof (cases "fn m")
    case None
    then show ?thesis by (simp add: first_handler_def)
  next
    case (Some f)
    show ?thesis
    proof (cases "cmd m = c")
      case True
      with Some show ?thesis by (simp add: first_handler_def)
    next
      case False
      with Some Cons.prems have "terminated ms \<or> first_handler ms c \<noteq> None"
        by (auto simp: terminated_def first_handler_def)
      with Cons.IH have "scan_sm ms c = Some (first_handler ms c)" .
      with Some False show ?thesis by (simp add: first_handler_def)
    qed
  qed
qed

lemma cp_sync:
  assumes "unat (buffer_len sc) = unat (frame_start_bytes sc)"
  shows "sc_checkpoints e sc sm =
     peek (buffer sc) 0 (unat (frame_start_bytes sc)) \<bind> (\<lambda>a.
     peek (frame_start sc) 0 (unat (frame_start_bytes sc)) \<bind> (\<lambda>b.
       if a \<noteq> b then map_option (Pair []) (shift_message sc 1 (frame_start_bytes sc - 1))
       else Some ([], sc)))"
proof -
  have a: "buffer_len sc = ucast (frame_start_bytes sc)"
    using assms by (simp add: word_unat_eq_iff)
  show ?thesis
    unfolding sc_checkpoints_def Let_def by (simp only: a if_True simp_thms)
qed

lemma sum1_sub_len:
  "unat ((ucast (frame_start_bytes sc) + ucast (cmd_bytes sc) + ucast (ts_bytes sc) +
         ucast (len_bytes sc) :: 32 word) - ucast (len_bytes sc)) = hdr_len sc - unat (len_bytes sc)"
proof -
  have "(ucast (frame_start_bytes sc) + ucast (cmd_bytes sc) + ucast (ts_bytes sc) +
         ucast (len_bytes sc) :: 32 word) - ucast (len_bytes sc)
      = ucast (frame_start_bytes sc) + ucast (cmd_bytes sc) + ucast (ts_bytes sc)"
    by simp
  moreover have "unat (ucast (frame_start_bytes sc) + ucast (cmd_bytes sc) + ucast (ts_bytes sc) :: 32 word)
      = unat (frame_start_bytes sc) + unat (cmd_bytes sc) + unat (ts_bytes sc)"
    using unat_8_bound [of "frame_start_bytes sc"] unat_8_bound [of "cmd_bytes sc"]
      unat_8_bound [of "ts_bytes sc"]
    by (simp add: unat_add_32_small)
  ultimately show ?thesis by (simp add: hdr_len_def)
qed

lemma cp_hdr:
  assumes "unat (buffer_len sc) \<noteq> unat (frame_start_bytes sc)"
    and "unat (buffer_len sc) = hdr_len sc"
    and "get_field e (message_len sc) (buffer sc) (hdr_len sc - unat (len_bytes sc)) (len_bytes sc)
           = Some l"
  shows "sc_checkpoints e sc sm =
           Some ([], if length_ok sc l then sc\<lparr>message_len := l\<rparr>
                     else sc\<lparr>message_len := l, buffer_len := 0\<rparr>)"
proof -
  have a: "buffer_len sc \<noteq> ucast (frame_start_bytes sc)"
    using assms(1) by (auto simp: word_unat_eq_iff)
  have b: "buffer_len sc = ucast (frame_start_bytes sc) + ucast (cmd_bytes sc) +
      ucast (ts_bytes sc) + ucast (len_bytes sc)"
    using assms(2) sum1_unat [of sc] by (simp add: word_unat_eq_iff)
  show ?thesis
    unfolding sc_checkpoints_def Let_def
    apply (simp only: a if_False sum1_sub_len assms(3) Option.bind.simps)
    apply (simp add: b length_ok_def)
    done
qed


lemma cp_done_nohash:
  assumes "unat (buffer_len sc) \<noteq> unat (frame_start_bytes sc)"
    and "unat (buffer_len sc) \<noteq> hdr_len sc"
    and "hash sc = None"
  shows "sc_checkpoints e sc sm = Some ([], sc)"
proof -
  have a: "buffer_len sc \<noteq> ucast (frame_start_bytes sc)"
    using assms(1) by (auto simp: word_unat_eq_iff)
  have b: "buffer_len sc \<noteq> ucast (frame_start_bytes sc) + ucast (cmd_bytes sc) +
      ucast (ts_bytes sc) + ucast (len_bytes sc)"
    using assms(2) sum1_unat [of sc] by auto
  show ?thesis
    unfolding sc_checkpoints_def Let_def
    by (simp only: a b if_False assms(3) option.simps if_cancel)
qed

lemma get_field_Some:
  "field_width w \<Longrightarrow> off + unat w \<le> length mem \<Longrightarrow>
     get_field e dst mem off w = Some (of_bytes e (take (unat w) (drop off mem)))"
  unfolding field_width_def get_field_def
  by (elim disjE; simp add: peek_def)

lemma cp_done_hash_nat:
  assumes "unat (buffer_len sc) \<noteq> unat (frame_start_bytes sc)"
    and "unat (buffer_len sc) \<noteq> hdr_len sc"
    and "unat (buffer_len sc) = frame_len sc (unat (message_len sc))"
    and "hash sc = Some h"
  shows "sc_checkpoints e sc sm =
     peek (buffer sc) (unat (frame_start_bytes sc))
       (unat (cmd_bytes sc) + unat (ts_bytes sc) + unat (len_bytes sc) + unat (message_len sc)) \<bind> (\<lambda>d.
     poke (buffer sc) (frame_len sc (unat (message_len sc))) (h d) \<bind> (\<lambda>b.
     peek b (frame_len sc (unat (message_len sc))) (unat (hash_bytes sc)) \<bind> (\<lambda>computed.
     peek b (hdr_len sc + unat (message_len sc)) (unat (hash_bytes sc)) \<bind> (\<lambda>received.
       if computed \<noteq> received then Some ([], sc\<lparr>buffer := b, buffer_len := 0\<rparr>)
       else
         get_field e 0 b (unat (frame_start_bytes sc)) (cmd_bytes sc) \<bind> (\<lambda>c.
         (if comm_ctrl_bytes sc > 0
          then get_field e 0 b
                 (frame_len sc (unat (message_len sc)) - unat (comm_ctrl_bytes sc))
                 (comm_ctrl_bytes sc)
          else Some 0) \<bind> (\<lambda>cc.
         scan_sm sm c \<bind> (\<lambda>f.
         Some (case f of
                 None \<Rightarrow> []
               | Some g \<Rightarrow>
                   [FnCall g (drop (unat (frame_start_bytes sc) + unat (cmd_bytes sc)) b)
                      (message_len sc) (drop (hdr_len sc) b) cc (priv sc)],
               sc\<lparr>buffer := b, buffer_len := 0\<rparr>))))))))"
proof -
  let ?n = "unat (message_len sc)"
  have small: "frame_len sc ?n < 4294967296"
    using assms(3) unat_32_bound [of "buffer_len sc"] by simp
  have a: "buffer_len sc \<noteq> ucast (frame_start_bytes sc)"
    using assms(1) by (auto simp: word_unat_eq_iff)
  have b: "buffer_len sc \<noteq> ucast (frame_start_bytes sc) + ucast (cmd_bytes sc) +
      ucast (ts_bytes sc) + ucast (len_bytes sc)"
    using assms(2) sum1_unat [of sc] by auto
  have c: "buffer_len sc = ucast (frame_start_bytes sc) + ucast (cmd_bytes sc) +
      ucast (ts_bytes sc) + ucast (len_bytes sc) + message_len sc + ucast (hash_bytes sc) +
         ucast (comm_ctrl_bytes sc)"
    using assms(3) small sum2_unat [of sc] by (simp add: word_unat_eq_iff)
  have h1: "unat (ucast (cmd_bytes sc) + ucast (ts_bytes sc) + ucast (len_bytes sc) +
      message_len sc :: 32 word)
      = unat (cmd_bytes sc) + unat (ts_bytes sc) + unat (len_bytes sc) + ?n"
    using small by (simp add: unat_add_32_small frame_len_def hdr_len_def)
  have h2: "unat (ucast (cmd_bytes sc) + ucast (ts_bytes sc) + ucast (len_bytes sc) +
      message_len sc + ucast (frame_start_bytes sc) :: 32 word) = hdr_len sc + ?n"
    using small h1 by (simp add: unat_add_32_small frame_len_def hdr_len_def)
  have h3: "unat (buffer_len sc - ucast (comm_ctrl_bytes sc))
      = frame_len sc ?n - unat (comm_ctrl_bytes sc)"
  proof -
    have "ucast (comm_ctrl_bytes sc) \<le> buffer_len sc"
      using assms(3) by (simp add: word_le_nat_alt frame_len_def)
    then show ?thesis using assms(3) by (simp add: unat_sub)
  qed
  have c': "(buffer_len sc = ucast (frame_start_bytes sc) + ucast (cmd_bytes sc) +
      ucast (ts_bytes sc) + ucast (len_bytes sc) + message_len sc + ucast (hash_bytes sc) +
         ucast (comm_ctrl_bytes sc)) = True"
    using c by simp
  have s1: "unat (ucast (frame_start_bytes sc) + ucast (cmd_bytes sc) + ucast (ts_bytes sc) +
         ucast (len_bytes sc) :: 32 word) = hdr_len sc"
    by (rule sum1_unat)
  show ?thesis
    unfolding sc_checkpoints_def Let_def
    apply (simp only: a b c' if_False if_True assms(4) option.simps)
    apply (simp add: h1 h2 h3 s1 assms(3) cong del: if_weak_cong option.case_cong_weak)
    done
qed

lemma sc_feed_append:
  "sc_feed e sc sm (xs @ ys) =
     sc_feed e sc sm xs \<bind> (\<lambda>(ev, sc1). sc_feed e sc1 sm ys \<bind> (\<lambda>(evs, sc2). Some (ev @ evs, sc2)))"
proof (induction xs arbitrary: sc)
  case Nil
  show ?case by (cases "sc_feed e sc sm ys") auto
next
  case (Cons x xs)
  show ?case
  proof (cases "sc_get_message e sc sm x")
    case None
    then show ?thesis by simp
  next
    case (Some r)
    obtain ev sc1 where r: "r = (ev, sc1)" by (cases r)
    show ?thesis
    proof (cases "sc_feed e sc1 sm xs")
      case None
      then show ?thesis by (simp add: Some r Cons.IH)
    next
      case xs: (Some r1)
      obtain ev1 sc2 where r1: "r1 = (ev1, sc2)" by (cases r1)
      show ?thesis
        by (cases "sc_feed e sc2 sm ys") (auto simp: Some r xs r1 Cons.IH)
    qed
  qed
qed

lemma sc_feed_single: "sc_feed e sc sm [b] = sc_get_message e sc sm b"
  by (cases "sc_get_message e sc sm b") auto

lemma sc_feed_snoc_quiet:
  assumes "sc_feed e sc sm xs = Some ([], sc1)"
  shows "sc_feed e sc sm (xs @ [b]) = sc_get_message e sc1 sm b"
  using assms by (cases "sc_get_message e sc1 sm b") (auto simp: sc_feed_append)

lemma run_count_snoc:
  "run_count n rb cnt (xs @ [b]) = next_count n rb (run_count n rb cnt xs) b"
  by (induction xs arbitrary: cnt) simp_all

lemma quiet_nth:
  "quiet n rb cnt F \<Longrightarrow> k < length F \<Longrightarrow> \<not> fires n rb (run_count n rb cnt (take k F)) (F ! k)"
proof (induction F arbitrary: cnt k)
  case Nil
  then show ?case by simp
next
  case (Cons a F)
  then show ?case by (cases k) simp_all
qed

lemma buffer_step:
  "k < length F \<Longrightarrow> length F \<le> length buf \<Longrightarrow>
     (take k F @ drop k buf)[k := F ! k] = take (Suc k) F @ drop (Suc k) buf"
  by (simp add: take_Suc_conv_app_nth list_update_append drop_Suc upd_conv_take_nth_drop)

lemma peek_prefix:
  "off + n \<le> k \<Longrightarrow> k \<le> length F \<Longrightarrow> peek (take k F @ rest) off n = Some (take n (drop off F))"
  by (simp add: peek_def drop_take)


lemma upt_4: "[0..<4] = [0, 1, 2, 3]"
  by (simp add: upt_rec)

lemma upt_2: "[0..<2] = [0, 1]"
  by (simp add: upt_rec)

lemma bytes4_join:
  "ucast (ucast v :: 8 word) OR
     push_bit 8 (ucast (ucast (drop_bit 8 v) :: 8 word)) OR
     push_bit 16 (ucast (ucast (drop_bit 16 v) :: 8 word)) OR
     push_bit 24 (ucast (ucast (drop_bit 24 v) :: 8 word)) = (v :: 32 word)"
proof (rule bit_word_eqI)
  fix n :: nat
  assume "n < LENGTH(32)"
  then have n: "n < 32" by simp
  consider "n < 8" | "8 \<le> n" "n < 16" | "16 \<le> n" "n < 24" | "24 \<le> n"
    by linarith
  then show "bit (ucast (ucast v :: 8 word) OR
     push_bit 8 (ucast (ucast (drop_bit 8 v) :: 8 word)) OR
     push_bit 16 (ucast (ucast (drop_bit 16 v) :: 8 word)) OR
     push_bit 24 (ucast (ucast (drop_bit 24 v) :: 8 word)) :: 32 word) n = bit v n"
    using n by cases (auto simp add: bit_simps)
qed

lemma of_to_bytes_4: "of_bytes e (to_bytes e 4 v) = v"
  by (cases e; simp add: to_bytes_def of_bytes_def upt_4 bytes4_join)

lemma of_to_bytes_1: "of_bytes e (to_bytes e (Suc 0) v) = take_bit 8 v"
  apply (cases e; simp add: to_bytes_def of_bytes_def)
  apply (rule bit_word_eqI; simp add: bit_simps)+
  done

lemma of_to_bytes_2: "of_bytes e (to_bytes e 2 v) = take_bit 16 v"
  apply (cases e; simp add: to_bytes_def of_bytes_def upt_2)
  apply (rule bit_word_eqI; auto simp add: bit_simps)+
  done

lemma of_to_bytes:
  assumes "field_width w" and "unat v < 2 ^ (8 * unat w)"
  shows "of_bytes e (to_bytes e (unat w) v) = v"
proof -
  from assms(1) consider "unat w = 1" | "unat w = 2" | "unat w = 4"
    by (auto simp: field_width_def)
  then show ?thesis
  proof cases
    case 1
    with assms(2) have "unat v < 2 ^ 8" by simp
    then have "take_bit 8 v = v"
      by (simp add: word_unat_eq_iff unsigned_take_bit_eq take_bit_nat_eq_self)
    with 1 show ?thesis by (simp add: of_to_bytes_1)
  next
    case 2
    with assms(2) have "unat v < 2 ^ 16" by simp
    then have "take_bit 16 v = v"
      by (simp add: word_unat_eq_iff unsigned_take_bit_eq take_bit_nat_eq_self)
    with 2 show ?thesis by (simp add: of_to_bytes_2)
  next
    case 3
    then show ?thesis by (simp add: of_to_bytes_4)
  qed
qed

lemma hdr_len_appended [simp]: "hdr_len (appended sc b) = hdr_len sc"
  by (simp add: hdr_len_def appended_def)

lemma frame_len_appended [simp]: "frame_len (appended sc b) n = frame_len sc n"
  by (simp add: frame_len_def hdr_len_def appended_def)

lemma appended_simps [simp]:
  "frame_start_bytes (appended sc b) = frame_start_bytes sc"
  "cmd_bytes (appended sc b) = cmd_bytes sc"
  "ts_bytes (appended sc b) = ts_bytes sc"
  "len_bytes (appended sc b) = len_bytes sc"
  "hash_bytes (appended sc b) = hash_bytes sc"
  "comm_ctrl_bytes (appended sc b) = comm_ctrl_bytes sc"
  "hash (appended sc b) = hash sc"
  "frame_start (appended sc b) = frame_start sc"
  "message_len (appended sc b) = message_len sc"
  "priv (appended sc b) = priv sc"
  "buffer (appended sc b) = (buffer sc)[unat (buffer_len sc) := b]"
  by (simp_all add: appended_def)

lemma length_ok_appended [simp]: "length_ok (appended sc b) l = length_ok sc l"
  by (simp add: length_ok_def appended_def)

lemma buffer_len_appended:
  "Suc (unat (buffer_len sc)) < 4294967296 \<Longrightarrow>
     unat (buffer_len (appended sc b)) = Suc (unat (buffer_len sc))"
  by (simp add: appended_def unat_add_32_small)

text \<open>One call of \<^verbatim>\<open>sc_get_message\<close>, checkpoint by checkpoint.\<close>

lemma step_idle:
  assumes "unat (buffer_len sc) < length (buffer sc)"
    and "\<not> fires (reset_bytes sc) (reset_byte sc) (buffer_reset_bytes sc) b"
    and "Suc (unat (buffer_len sc)) < 4294967296"
    and "Suc (unat (buffer_len sc)) \<noteq> unat (frame_start_bytes sc)"
    and "Suc (unat (buffer_len sc)) \<noteq> hdr_len sc"
    and "Suc (unat (buffer_len sc)) \<noteq> frame_len sc (unat (message_len sc)) mod 4294967296"
  shows "sc_get_message e sc sm b = Some ([], appended sc b)"
proof -
  have "sc_checkpoints e (appended sc b) sm = Some ([], appended sc b)"
    by (rule cp_idle) (use assms in \<open>simp_all add: buffer_len_appended\<close>)
  with assms(1,2) show ?thesis by (simp add: sc_get_message_unfold)
qed

lemma step_sync_match:
  assumes "unat (buffer_len sc) < length (buffer sc)"
    and "\<not> fires (reset_bytes sc) (reset_byte sc) (buffer_reset_bytes sc) b"
    and "Suc (unat (buffer_len sc)) = unat (frame_start_bytes sc)"
    and "unat (frame_start_bytes sc) \<le> length (frame_start sc)"
    and "take (unat (frame_start_bytes sc)) ((buffer sc)[unat (buffer_len sc) := b])
           = take (unat (frame_start_bytes sc)) (frame_start sc)"
  shows "sc_get_message e sc sm b = Some ([], appended sc b)"
proof -
  have small: "Suc (unat (buffer_len sc)) < 4294967296"
    using assms(3) unat_8_bound [of "frame_start_bytes sc"] by simp
  have len: "unat (buffer_len (appended sc b)) = unat (frame_start_bytes (appended sc b))"
    using assms(3) small by (simp add: buffer_len_appended)
  have "sc_checkpoints e (appended sc b) sm = Some ([], appended sc b)"
    unfolding cp_sync [OF len]
    using assms(1,3,4,5) by (simp add: peek_def)
  with assms(1,2) show ?thesis by (simp add: sc_get_message_unfold)
qed

lemma step_hdr:
  assumes "unat (buffer_len sc) < length (buffer sc)"
    and "\<not> fires (reset_bytes sc) (reset_byte sc) (buffer_reset_bytes sc) b"
    and "Suc (unat (buffer_len sc)) = hdr_len sc"
    and "Suc (unat (buffer_len sc)) \<noteq> unat (frame_start_bytes sc)"
    and "field_width (len_bytes sc)"
    and "l = of_bytes e (take (unat (len_bytes sc))
             (drop (hdr_len sc - unat (len_bytes sc)) ((buffer sc)[unat (buffer_len sc) := b])))"
  shows "sc_get_message e sc sm b =
           Some ([], if length_ok sc l then (appended sc b)\<lparr>message_len := l\<rparr>
                     else (appended sc b)\<lparr>message_len := l, buffer_len := 0\<rparr>)"
proof -
  have "hdr_len sc < 1024"
    using unat_8_bound [of "frame_start_bytes sc"] unat_8_bound [of "cmd_bytes sc"]
      unat_8_bound [of "ts_bytes sc"] unat_8_bound [of "len_bytes sc"]
    by (simp add: hdr_len_def)
  with assms(3) have small: "Suc (unat (buffer_len sc)) < 4294967296" by simp
  have a: "unat (buffer_len (appended sc b)) \<noteq> unat (frame_start_bytes (appended sc b))"
    using assms(4) small by (simp add: buffer_len_appended)
  have b: "unat (buffer_len (appended sc b)) = hdr_len (appended sc b)"
    using assms(3) small by (simp add: buffer_len_appended)
  have "hdr_len sc - unat (len_bytes sc) + unat (len_bytes sc) \<le> length (buffer sc)"
    using assms(1,3) by (simp add: hdr_len_def)
  then have g: "get_field e (message_len (appended sc b)) (buffer (appended sc b))
      (hdr_len (appended sc b) - unat (len_bytes (appended sc b))) (len_bytes (appended sc b)) = Some l"
    using assms(5,6) by (simp add: get_field_Some)
  show ?thesis
    using assms(1,2) by (simp add: sc_get_message_unfold cp_hdr [OF a b g])
qed

lemma step_done_nohash:
  assumes "unat (buffer_len sc) < length (buffer sc)"
    and "\<not> fires (reset_bytes sc) (reset_byte sc) (buffer_reset_bytes sc) b"
    and "Suc (unat (buffer_len sc)) < 4294967296"
    and "Suc (unat (buffer_len sc)) \<noteq> unat (frame_start_bytes sc)"
    and "Suc (unat (buffer_len sc)) \<noteq> hdr_len sc"
    and "hash sc = None"
  shows "sc_get_message e sc sm b = Some ([], appended sc b)"
proof -
  have "sc_checkpoints e (appended sc b) sm = Some ([], appended sc b)"
    by (rule cp_done_nohash) (use assms in \<open>simp_all add: buffer_len_appended\<close>)
  with assms(1,2) show ?thesis by (simp add: sc_get_message_unfold)
qed


lemma take_drop_prefix:
  "off + n \<le> k \<Longrightarrow> k \<le> length F \<Longrightarrow> take n (drop off (take k F @ rest)) = take n (drop off F)"
  by (simp add: drop_take)

lemma get_field_prefix:
  "field_width w \<Longrightarrow> off + unat w \<le> k \<Longrightarrow> k \<le> length F \<Longrightarrow>
     get_field e dst (take k F @ rest) off w = Some (of_bytes e (take (unat w) (drop off F)))"
proof -
  assume w: "field_width w" and le: "off + unat w \<le> k" "k \<le> length F"
  have "take (unat w) (drop off (take k F @ rest)) = take (unat w) (drop off F)"
    using le by (rule take_drop_prefix)
  moreover have "off + unat w \<le> length (take k F @ rest)"
    using le by simp
  ultimately show ?thesis
    using get_field_Some [OF w, of off "take k F @ rest" e dst] by simp
qed

lemma step_done_hash:
  fixes sc :: sercomm and b :: byte and e :: endian and h :: "byte list \<Rightarrow> byte list"
  assumes n_def: "n = unat (message_len sc)"
    and buf_def: "buf = (buffer sc)[unat (buffer_len sc) := b]"
    and d_def: "d = take (unat (cmd_bytes sc) + unat (ts_bytes sc) + unat (len_bytes sc) + n)
                 (drop (unat (frame_start_bytes sc)) buf)"
    and received_def: "received = take (unat (hash_bytes sc)) (drop (hdr_len sc + n) buf)"
    and c_def: "c = of_bytes e (take (unat (cmd_bytes sc)) (drop (unat (frame_start_bytes sc)) buf))"
    and cc_def: "cc = (if comm_ctrl_bytes sc = 0 then 0
                 else of_bytes e (take (unat (comm_ctrl_bytes sc))
                        (drop (frame_len sc n - unat (comm_ctrl_bytes sc)) buf)))"
    and B_def: "B = take (frame_len sc n) buf @ h d @
                 drop (frame_len sc n + unat (hash_bytes sc)) buf"
    and inb: "unat (buffer_len sc) < length (buffer sc)"
    and nf: "\<not> fires (reset_bytes sc) (reset_byte sc) (buffer_reset_bytes sc) b"
    and ns: "Suc (unat (buffer_len sc)) \<noteq> unat (frame_start_bytes sc)"
    and nh: "Suc (unat (buffer_len sc)) \<noteq> hdr_len sc"
    and at: "Suc (unat (buffer_len sc)) = frame_len sc n"
    and small: "frame_len sc n < 4294967296"
    and hs: "hash sc = Some h"
    and hl: "length (h d) = unat (hash_bytes sc)"
    and cap: "frame_len sc n + unat (hash_bytes sc) \<le> length (buffer sc)"
    and wc: "field_width (cmd_bytes sc)"
    and wk: "comm_ctrl_bytes sc = 0 \<or> field_width (comm_ctrl_bytes sc)"
    and tbl: "h d = received \<longrightarrow> terminated sm \<or> first_handler sm c \<noteq> None"
  shows "sc_get_message e sc sm b =
     Some (if h d \<noteq> received then []
           else (case first_handler sm c of
                   None \<Rightarrow> []
                 | Some g \<Rightarrow>
                     [FnCall g
                        (drop (unat (frame_start_bytes sc) + unat (cmd_bytes sc)) B)
                        (message_len sc) (drop (hdr_len sc) B) cc (priv sc)]),
           (appended sc b)\<lparr>buffer := B, buffer_len := 0\<rparr>)"
proof -
  let ?A = "appended sc b"
  let ?tot = "frame_len sc n"
  let ?B = "take ?tot buf @ h d @ drop (?tot + unat (hash_bytes sc)) buf"
  have lb: "length buf = length (buffer sc)" by (simp add: buf_def)
  have tot: "?tot = unat (frame_start_bytes sc) + unat (cmd_bytes sc) + unat (ts_bytes sc) +
      unat (len_bytes sc) + n + unat (hash_bytes sc) + unat (comm_ctrl_bytes sc)"
    by (simp add: frame_len_def hdr_len_def)
  have totle: "?tot \<le> length buf" using cap lb by simp
  have sm1: "Suc (unat (buffer_len sc)) < 4294967296" using at small by simp
  have a1: "unat (buffer_len ?A) \<noteq> unat (frame_start_bytes ?A)"
    using ns sm1 by (simp add: buffer_len_appended)
  have a2: "unat (buffer_len ?A) \<noteq> hdr_len ?A"
    using nh sm1 by (simp add: buffer_len_appended)
  have a3: "unat (buffer_len ?A) = frame_len ?A (unat (message_len ?A))"
    using at sm1 by (simp add: buffer_len_appended n_def)
  have a4: "hash ?A = Some h" using hs by simp
  have p1: "peek buf (unat (frame_start_bytes sc))
      (unat (cmd_bytes sc) + unat (ts_bytes sc) + unat (len_bytes sc) + n) = Some d"
    using totle tot by (simp add: peek_def d_def)
  have p2: "poke buf ?tot (h d) = Some ?B"
    using cap lb hl by (simp add: poke_def)
  have p3: "peek ?B ?tot (unat (hash_bytes sc)) = Some (h d)"
    by (rule peek_piece) (use totle hl in simp_all)
  have p4: "peek ?B (hdr_len sc + n) (unat (hash_bytes sc)) = Some received"
    unfolding received_def
    by (rule peek_prefix) (use totle in \<open>simp_all add: frame_len_def\<close>)
  have g1: "get_field e 0 ?B (unat (frame_start_bytes sc)) (cmd_bytes sc) = Some c"
    unfolding c_def
    by (rule get_field_prefix [OF wc]) (use totle tot in simp_all)
  have g2: "(if 0 < comm_ctrl_bytes sc
             then get_field e 0 ?B (?tot - unat (comm_ctrl_bytes sc)) (comm_ctrl_bytes sc)
             else Some 0) = Some cc"
  proof (cases "comm_ctrl_bytes sc = 0")
    case True
    then show ?thesis by (simp add: cc_def)
  next
    case False
    with wk have w: "field_width (comm_ctrl_bytes sc)" by simp
    have "get_field e 0 ?B (?tot - unat (comm_ctrl_bytes sc)) (comm_ctrl_bytes sc)
        = Some (of_bytes e (take (unat (comm_ctrl_bytes sc))
                 (drop (?tot - unat (comm_ctrl_bytes sc)) buf)))"
      by (rule get_field_prefix [OF w]) (use totle tot in simp_all)
    with False show ?thesis by (simp add: cc_def word_gt_0)
  qed
  have cp: "sc_checkpoints e ?A sm =
     Some (if h d \<noteq> received then []
           else (case first_handler sm c of
                   None \<Rightarrow> []
                 | Some g \<Rightarrow>
                     [FnCall g
                        (drop (unat (frame_start_bytes sc) + unat (cmd_bytes sc)) ?B)
                        (message_len sc) (drop (hdr_len sc) ?B) cc (priv sc)]),
           ?A\<lparr>buffer := ?B, buffer_len := 0\<rparr>)"
  proof -
    have main: "sc_checkpoints e ?A sm =
       (if h d \<noteq> received then Some ([], ?A\<lparr>buffer := ?B, buffer_len := 0\<rparr>)
        else get_field e 0 ?B (unat (frame_start_bytes sc)) (cmd_bytes sc) \<bind> (\<lambda>c.
         (if comm_ctrl_bytes sc > 0
          then get_field e 0 ?B (?tot - unat (comm_ctrl_bytes sc)) (comm_ctrl_bytes sc)
          else Some 0) \<bind> (\<lambda>cc.
         scan_sm sm c \<bind> (\<lambda>f.
         Some (case f of
                 None \<Rightarrow> []
               | Some g \<Rightarrow>
                   [FnCall g (drop (unat (frame_start_bytes sc) + unat (cmd_bytes sc)) ?B)
                      (message_len sc) (drop (hdr_len sc) ?B) cc (priv sc)],
               ?A\<lparr>buffer := ?B, buffer_len := 0\<rparr>)))))"
      unfolding cp_done_hash_nat [OF a1 a2 a3 a4]
      by (simp add: p1 p2 p3 p4 flip: n_def buf_def
            cong del: if_weak_cong option.case_cong_weak)
    show ?thesis
    proof (cases "h d = received")
      case True
      with tbl have "scan_sm sm c = Some (first_handler sm c)"
        by (simp add: scan_sm_first_handler)
      then show ?thesis
        unfolding main by (simp add: g1 g2 True [symmetric])
    next
      case False
      then show ?thesis
        unfolding main by simp
    qed
  qed
  show ?thesis
    unfolding B_def using inb nf cp by (simp add: sc_get_message_unfold)
qed

lemma feed_prefix:
  assumes "\<And>k. k < N \<Longrightarrow> sc_get_message e (st k) sm (F ! k) = Some ([], st (Suc k))"
    and "N \<le> length F"
  shows "sc_feed e (st 0) sm (take N F) = Some ([], st N)"
  using assms
proof (induction N)
  case 0
  then show ?case by simp
next
  case (Suc N)
  then have "sc_feed e (st 0) sm (take N F) = Some ([], st N)" by simp
  then have "sc_feed e (st 0) sm (take N F @ [F ! N]) = sc_get_message e (st N) sm (F ! N)"
    by (rule sc_feed_snoc_quiet)
  moreover have "take (Suc N) F = take N F @ [F ! N]"
    using Suc.prems(2) by (simp add: take_Suc_conv_app_nth)
  ultimately show ?case using Suc.prems(1) [of N] by simp
qed

lemma hdr_len_bound: "hdr_len sc < 1024"
  using unat_8_bound [of "frame_start_bytes sc"] unat_8_bound [of "cmd_bytes sc"]
    unat_8_bound [of "ts_bytes sc"] unat_8_bound [of "len_bytes sc"]
  by (simp add: hdr_len_def)

lemma field_width_pos: "field_width w \<Longrightarrow> 0 < unat w"
  by (auto simp: field_width_def)

lemma decode_frame:
  fixes sc :: sercomm and e :: endian and h :: "byte list \<Rightarrow> byte list" and m T :: "byte list"
    and c cctrl :: "32 word"
  defines "n \<equiv> length m"
  defines "X \<equiv> to_bytes e (unat (cmd_bytes sc)) c @ T @
                 to_bytes e (unat (len_bytes sc)) (of_nat n) @ m"
  defines "F \<equiv> take (unat (frame_start_bytes sc)) (frame_start sc) @ X @ h X @
                 to_bytes e (unat (comm_ctrl_bytes sc)) cctrl"
  defines "B \<equiv> F @ h X @ drop (frame_len sc n + unat (hash_bytes sc)) (buffer sc)"
  assumes wc: "field_width (cmd_bytes sc)" and wl: "field_width (len_bytes sc)"
    and wk: "comm_ctrl_bytes sc = 0 \<or> field_width (comm_ctrl_bytes sc)"
    and fs: "unat (frame_start_bytes sc) \<le> length (frame_start sc)"
    and hs: "hash sc = Some h"
    and lT: "length T = unat (ts_bytes sc)"
    and lH: "length (h X) = unat (hash_bytes sc)"
    and fitc: "unat c < 2 ^ (8 * unat (cmd_bytes sc))"
    and fitm: "n < 2 ^ (8 * unat (len_bytes sc))"
    and fitk: "comm_ctrl_bytes sc = 0 \<or> unat cctrl < 2 ^ (8 * unat (comm_ctrl_bytes sc))"
    and pol: "length_ok sc (of_nat n)"
    and st0: "buffer_len sc = 0"
    and stale: "frame_len sc (unat (message_len sc)) < 4294967296"
    and small: "frame_len sc n < 4294967296"
    and cap: "frame_len sc n + unat (hash_bytes sc) \<le> length (buffer sc)"
    and q: "quiet (reset_bytes sc) (reset_byte sc) (buffer_reset_bytes sc) F"
    and ne: "0 < n + unat (hash_bytes sc) + unat (comm_ctrl_bytes sc)"
    and tbl: "terminated sm \<or> first_handler sm c \<noteq> None"
  shows "sc_feed e sc sm F =
     Some (case first_handler sm c of
             None \<Rightarrow> []
           | Some g \<Rightarrow>
               [FnCall g (drop (unat (frame_start_bytes sc) + unat (cmd_bytes sc)) B)
                  (of_nat n) (drop (hdr_len sc) B)
                  (if comm_ctrl_bytes sc = 0 then 0 else cctrl) (priv sc)],
           sc\<lparr>buffer := B, buffer_len := 0, message_len := of_nat n,
              buffer_reset_bytes :=
                run_count (reset_bytes sc) (reset_byte sc) (buffer_reset_bytes sc) F\<rparr>)"
proof -
  let ?a = "unat (frame_start_bytes sc)" and ?b = "unat (cmd_bytes sc)"
  let ?c = "unat (ts_bytes sc)" and ?d = "unat (len_bytes sc)"
  let ?h = "unat (hash_bytes sc)" and ?k = "unat (comm_ctrl_bytes sc)"
  let ?tot = "frame_len sc n"
  let ?S = "take ?a (frame_start sc)"
  let ?Cf = "to_bytes e ?b c"
  let ?L = "to_bytes e ?d (of_nat n :: 32 word)"
  let ?K = "to_bytes e ?k cctrl"
  let ?rc = "run_count (reset_bytes sc) (reset_byte sc) (buffer_reset_bytes sc)"
  define st where "st = (\<lambda>k. sc\<lparr>buffer := take k F @ drop k (buffer sc), buffer_len := of_nat k,
     message_len := (if hdr_len sc \<le> k then of_nat n else message_len sc),
     buffer_reset_bytes := ?rc (take k F)\<rparr>)"
  have hdr: "hdr_len sc = ?a + ?b + ?c + ?d" by (simp add: hdr_len_def)
  have tot: "?tot = ?a + ?b + ?c + ?d + n + ?h + ?k" by (simp add: frame_len_def hdr_len_def)
  define S where "S = take ?a (frame_start sc)"
  define HX where "HX = h X"
  have lS: "length S = ?a" using fs by (simp add: S_def)
  have lHX: "length HX = ?h" using lH by (simp add: HX_def)
  have lCf: "length ?Cf = ?b" and lL: "length ?L = ?d" and lK: "length ?K = ?k" and lm: "length m = n"
    by (simp_all add: n_def)
  have Xeq: "X = ?Cf @ T @ ?L @ m" by (simp add: X_def)
  have lX: "length X = ?b + ?c + ?d + n" by (simp add: X_def lT n_def)
  have Feq: "F = S @ ?Cf @ T @ ?L @ m @ HX @ ?K"
    by (simp add: F_def S_def HX_def X_def)
  have lF: "length F = ?tot" by (simp add: Feq lS lT lHX lm tot)
  have bpos: "0 < ?b" and dpos: "0 < ?d"
    using wc wl by (simp_all add: field_width_pos)
  have n32: "unat (of_nat n :: 32 word) = n"
    using small tot by (simp add: unat_of_nat_32)
  \<comment> \<open>the fields of the frame\<close>
  have F_S: "take ?a F = take ?a (frame_start sc)"
    unfolding Feq using lS by (simp add: S_def)
  have F_X: "take (?b + ?c + ?d + n) (drop ?a F) = X"
    unfolding Feq Xeq using lS lT lm by simp
  have F_C: "take ?b (drop ?a F) = ?Cf"
    unfolding Feq using lS by simp
  have F_L: "take ?d (drop (hdr_len sc - ?d) F) = ?L"
    unfolding Feq hdr using lS lT by simp
  have F_H: "take ?h (drop (hdr_len sc + n) F) = h X"
    unfolding Feq hdr using lS lT lm lHX by (simp add: HX_def)
  have F_K: "take ?k (drop (?tot - ?k) F) = ?K"
    unfolding Feq tot using lS lT lm lHX by simp
  \<comment> \<open>the states on the way\<close>
  have st_simps: "unat (buffer_len (st k)) = k" "length (buffer (st k)) = length (buffer sc)"
      "frame_start_bytes (st k) = frame_start_bytes sc" "hdr_len (st k) = hdr_len sc"
      "frame_len (st k) x = frame_len sc x" "frame_start (st k) = frame_start sc"
      "len_bytes (st k) = len_bytes sc" "hash (st k) = hash sc"
      "reset_bytes (st k) = reset_bytes sc" "reset_byte (st k) = reset_byte sc"
      "buffer_reset_bytes (st k) = ?rc (take k F)"
      "message_len (st k) = (if hdr_len sc \<le> k then of_nat n else message_len sc)"
      "length_ok (st k) l = length_ok sc l"
      "cmd_bytes (st k) = cmd_bytes sc" "comm_ctrl_bytes (st k) = comm_ctrl_bytes sc"
      "hash_bytes (st k) = hash_bytes sc" "ts_bytes (st k) = ts_bytes sc"
      "priv (st k) = priv sc"
    if "k \<le> ?tot" for k x l
    using that small cap lF
    by (simp_all add: st_def unat_of_nat_32 hdr_len_def frame_len_def length_ok_def)
  have st_buf: "buffer (st k) = take k F @ drop k (buffer sc)" for k
    by (simp add: st_def)
  have ap_same: "appended (st k) (F ! k) = st (Suc k)"
    if "k < ?tot" "(hdr_len sc \<le> Suc k) = (hdr_len sc \<le> k)" for k
    using that small cap lF
    by (simp add: appended_def st_def unat_of_nat_32 buffer_step take_Suc_conv_app_nth
          run_count_snoc)
  have ap_hdr: "(appended (st k) (F ! k))\<lparr>message_len := of_nat n\<rparr> = st (Suc k)"
    if "k < ?tot" "hdr_len sc = Suc k" for k
    using that small cap lF
    by (simp add: appended_def st_def unat_of_nat_32 buffer_step take_Suc_conv_app_nth
          run_count_snoc)
  have upd: "(buffer (st k))[k := F ! k] = take (Suc k) F @ drop (Suc k) (buffer sc)"
    if "k < ?tot" for k
    using that cap lF by (simp add: st_simps st_buf buffer_step)
  have upd': "(buffer (st k))[unat (buffer_len (st k)) := F ! k]
      = take (Suc k) F @ drop (Suc k) (buffer sc)"
    if "k < ?tot" for k
    using that upd [of k] by (simp add: st_simps)
  have nofire: "\<not> fires (reset_bytes (st k)) (reset_byte (st k)) (buffer_reset_bytes (st k)) (F ! k)"
    if "k < ?tot" for k
    using that q lF by (simp add: st_simps quiet_nth)
  have inb: "unat (buffer_len (st k)) < length (buffer (st k))" if "k < ?tot" for k
    using that cap by (simp add: st_simps)
  have step: "sc_get_message e (st k) sm (F ! k) = Some ([], st (Suc k))" if k: "Suc k < ?tot" for k
  proof -
    have k': "k < ?tot" "k \<le> ?tot" "Suc k \<le> ?tot" using k by simp_all
    consider (sync) "Suc k = ?a" | (hdr) "Suc k = hdr_len sc"
      | (idle) "Suc k \<noteq> ?a" "Suc k \<noteq> hdr_len sc"
      by blast
    then show ?thesis
    proof cases
      case sync
      have "sc_get_message e (st k) sm (F ! k) = Some ([], appended (st k) (F ! k))"
      proof (rule step_sync_match)
        have "take (Suc k) (take (Suc k) F @ drop (Suc k) (buffer sc)) = take (Suc k) F"
          using k' lF by simp
        then have "take ?a (take (Suc k) F @ drop (Suc k) (buffer sc)) = take ?a (frame_start sc)"
          using F_S by (simp only: sync)
        then show "take (unat (frame_start_bytes (st k))) ((buffer (st k))[unat (buffer_len (st k)) := F ! k])
            = take (unat (frame_start_bytes (st k))) (frame_start (st k))"
          by (simp only: upd' [OF k'(1)] st_simps(3,6) [OF k'(2)])
      qed (use sync k' fs inb nofire in \<open>simp_all add: st_simps\<close>)
      moreover have "hdr_len sc \<le> Suc k \<longleftrightarrow> hdr_len sc \<le> k"
        using sync bpos hdr by simp
      ultimately show ?thesis
        using k' by (simp add: ap_same)
    next
      case hdr
      have ns: "Suc k \<noteq> ?a" using hdr bpos by (simp add: hdr_len_def)
      have l: "of_nat n = of_bytes e (take (unat (len_bytes (st k)))
          (drop (hdr_len (st k) - unat (len_bytes (st k)))
            ((buffer (st k))[unat (buffer_len (st k)) := F ! k])))"
      proof -
        have "take ?d (drop (hdr_len sc - ?d) (take (Suc k) F @ drop (Suc k) (buffer sc)))
            = take ?d (drop (hdr_len sc - ?d) F)"
          by (rule take_drop_prefix) (use hdr k' lF in \<open>simp_all add: hdr_len_def\<close>)
        then have t1: "take ?d (drop (hdr_len sc - ?d) (take (Suc k) F @ drop (Suc k) (buffer sc))) = ?L"
          using F_L by simp
        have t2: "of_bytes e ?L = of_nat n"
          by (rule of_to_bytes [OF wl]) (use fitm n32 in simp)
        have cfg: "hdr_len (st k) = hdr_len sc" "len_bytes (st k) = len_bytes sc"
          using k' by (simp_all add: st_simps)
        show ?thesis unfolding upd' [OF k'(1)] cfg t1 t2 by (rule refl)
      qed
      have "sc_get_message e (st k) sm (F ! k) =
          Some ([], if length_ok (st k) (of_nat n)
                    then (appended (st k) (F ! k))\<lparr>message_len := of_nat n\<rparr>
                    else (appended (st k) (F ! k))\<lparr>message_len := of_nat n, buffer_len := 0\<rparr>)"
        by (rule step_hdr [OF _ _ _ _ _ l])
           (use hdr ns k' wl inb nofire in \<open>simp_all add: st_simps\<close>)
      then show ?thesis
        using k' pol by (simp add: ap_hdr [OF k'(1) hdr [symmetric]] st_simps)
    next
      case idle
      have nd: "Suc k \<noteq> frame_len (st k) (unat (message_len (st k))) mod 4294967296"
      proof (cases "hdr_len sc \<le> k")
        case True
        then show ?thesis using k k' small by (simp add: st_simps n32)
      next
        case False
        with idle have "Suc k < hdr_len sc" by simp
        also have "hdr_len sc \<le> frame_len sc (unat (message_len sc))"
          by (simp add: frame_len_def)
        finally show ?thesis using False k' stale by (simp add: st_simps)
      qed
      have "sc_get_message e (st k) sm (F ! k) = Some ([], appended (st k) (F ! k))"
        by (rule step_idle)
           (use idle nd k' small inb nofire in \<open>simp_all add: st_simps\<close>)
      moreover have "hdr_len sc \<le> Suc k \<longleftrightarrow> hdr_len sc \<le> k"
        using idle by auto
      ultimately show ?thesis
        using k' by (simp add: ap_same)
    qed
  qed
  have tot_pos: "hdr_len sc < ?tot" using ne by (simp add: frame_len_def)
  define k where "k = ?tot - 1"
  have k: "Suc k = ?tot" "k < ?tot" "k \<le> ?tot" "hdr_len sc \<le> k"
    using tot_pos by (simp_all add: k_def)
  have st0': "st 0 = sc"
    using bpos by (simp add: st_def hdr st0 [symmetric])
  have pre: "sc_feed e sc sm (take k F) = Some ([], st k)"
    using feed_prefix [of k e st sm F] step k lF by (simp add: st0')
  have bufeq: "(buffer (st k))[unat (buffer_len (st k)) := F ! k] = F @ drop ?tot (buffer sc)"
    using upd' [OF k(2)] lF by (simp add: k(1))
  have ml: "message_len (st k) = of_nat n" using k by (simp add: st_simps)
  have Beq: "B = take ?tot (F @ drop ?tot (buffer sc)) @ h X @
      drop (?tot + ?h) (F @ drop ?tot (buffer sc))"
    using lF by (simp add: B_def add.commute)
  have c_eq: "c = of_bytes e ?Cf"
    by (rule of_to_bytes [OF wc fitc, symmetric])
  have cc_eq: "(if comm_ctrl_bytes sc = 0 then 0 else cctrl)
      = (if comm_ctrl_bytes sc = 0 then 0 else of_bytes e ?K)"
    using wk fitk by (auto simp: of_to_bytes)
  have fin: "sc_get_message e (st k) sm (F ! k) =
     Some (if h X \<noteq> h X then []
           else (case first_handler sm c of
                   None \<Rightarrow> []
                 | Some g \<Rightarrow>
                     [FnCall g
                        (drop (unat (frame_start_bytes (st k)) + unat (cmd_bytes (st k))) B)
                        (message_len (st k)) (drop (hdr_len (st k)) B)
                        (if comm_ctrl_bytes sc = 0 then 0 else cctrl) (priv (st k))]),
           (appended (st k) (F ! k))\<lparr>buffer := B, buffer_len := 0\<rparr>)"
  proof (rule step_done_hash [where n = n and buf = "F @ drop ?tot (buffer sc)" and h = h])
    show "n = unat (message_len (st k))" using n32 by (simp add: ml)
    show "F @ drop ?tot (buffer sc) = (buffer (st k))[unat (buffer_len (st k)) := F ! k]"
      by (rule bufeq [symmetric])
    show "X = take (unat (cmd_bytes (st k)) + unat (ts_bytes (st k)) + unat (len_bytes (st k)) + n)
        (drop (unat (frame_start_bytes (st k))) (F @ drop ?tot (buffer sc)))"
      using F_X lF k tot by (simp add: st_simps)
    show "h X = take (unat (hash_bytes (st k))) (drop (hdr_len (st k) + n) (F @ drop ?tot (buffer sc)))"
      using F_H lF k tot hdr by (simp add: st_simps)
    show "c = of_bytes e (take (unat (cmd_bytes (st k)))
        (drop (unat (frame_start_bytes (st k))) (F @ drop ?tot (buffer sc))))"
      using F_C lF k tot c_eq by (simp add: st_simps)
    show "(if comm_ctrl_bytes sc = 0 then 0 else cctrl) =
        (if comm_ctrl_bytes (st k) = 0 then 0
         else of_bytes e (take (unat (comm_ctrl_bytes (st k)))
                (drop (frame_len (st k) n - unat (comm_ctrl_bytes (st k)))
                  (F @ drop ?tot (buffer sc)))))"
      using F_K lF k tot cc_eq by (simp add: st_simps)
    show "B = take (frame_len (st k) n) (F @ drop ?tot (buffer sc)) @ h X @
        drop (frame_len (st k) n + unat (hash_bytes (st k))) (F @ drop ?tot (buffer sc))"
      using Beq k by (simp add: st_simps)
    show "unat (buffer_len (st k)) < length (buffer (st k))" by (rule inb [OF k(2)])
    show "\<not> fires (reset_bytes (st k)) (reset_byte (st k)) (buffer_reset_bytes (st k)) (F ! k)"
      by (rule nofire [OF k(2)])
    show "Suc (unat (buffer_len (st k))) \<noteq> unat (frame_start_bytes (st k))"
      using k tot_pos bpos hdr by (simp add: st_simps)
    show "Suc (unat (buffer_len (st k))) \<noteq> hdr_len (st k)"
      using k tot_pos by (simp add: st_simps)
    show "Suc (unat (buffer_len (st k))) = frame_len (st k) n"
      using k by (simp add: st_simps)
    show "frame_len (st k) n < 4294967296" using k small by (simp add: st_simps)
    show "hash (st k) = Some h" using k hs by (simp add: st_simps)
    show "length (h X) = unat (hash_bytes (st k))" using k lH by (simp add: st_simps)
    show "frame_len (st k) n + unat (hash_bytes (st k)) \<le> length (buffer (st k))"
      using k cap by (simp add: st_simps)
    show "field_width (cmd_bytes (st k))" using k wc by (simp add: st_simps)
    show "comm_ctrl_bytes (st k) = 0 \<or> field_width (comm_ctrl_bytes (st k))"
      using k wk by (simp add: st_simps)
    show "h X = h X \<longrightarrow> terminated sm \<or> first_handler sm c \<noteq> None"
      using tbl by simp
  qed
  have last: "(appended (st k) (F ! k))\<lparr>buffer := B, buffer_len := 0\<rparr>
      = sc\<lparr>buffer := B, buffer_len := 0, message_len := of_nat n,
           buffer_reset_bytes := ?rc F\<rparr>"
  proof -
    have "take k F @ [F ! k] = F" using k lF by (metis take_Suc_conv_app_nth take_all order_refl)
    then have "?rc F = next_count (reset_bytes sc) (reset_byte sc) (?rc (take k F)) (F ! k)"
      using run_count_snoc [of "reset_bytes sc" "reset_byte sc" "buffer_reset_bytes sc" "take k F" "F ! k"]
      by simp
    then show ?thesis
      using k by (simp add: appended_def st_def)
  qed
  have "sc_feed e sc sm (take k F @ [F ! k]) = sc_get_message e (st k) sm (F ! k)"
    using pre by (rule sc_feed_snoc_quiet)
  moreover have "take k F @ [F ! k] = F"
    using k lF by (metis take_Suc_conv_app_nth take_all order_refl)
  ultimately have "sc_feed e sc sm F = sc_get_message e (st k) sm (F ! k)" by simp
  then show ?thesis
    unfolding fin last using k
    by (simp add: st_simps cong del: option.case_cong_weak if_weak_cong)
qed


subsection \<open>The encoder, store by store\<close>

lemma make_message_steps_frame:
  assumes enc: "encodable e sc c m output" and olen: "frame_len sc (length m) \<le> unat olen"
  shows "sc_make_message_steps e sc c cctrl (Some m) (of_nat (length m)) output olen =
     Some (of_nat (frame_len sc (length m)),
           [take (unat (frame_start_bytes sc)) (frame_start sc) @
              drop (unat (frame_start_bytes sc)) output,
            take (unat (frame_start_bytes sc)) (frame_start sc) @
              to_bytes e (unat (cmd_bytes sc)) c @
              drop (unat (frame_start_bytes sc) + unat (cmd_bytes sc)) output,
            take (unat (frame_start_bytes sc)) (frame_start sc) @
              to_bytes e (unat (cmd_bytes sc)) c @ ts_field sc output @
              drop (unat (frame_start_bytes sc) + unat (cmd_bytes sc) + unat (ts_bytes sc)) output,
            take (unat (frame_start_bytes sc)) (frame_start sc) @
              to_bytes e (unat (cmd_bytes sc)) c @ ts_field sc output @
              to_bytes e (unat (len_bytes sc)) (of_nat (length m)) @
              drop (hdr_len sc) output,
            take (unat (frame_start_bytes sc)) (frame_start sc) @
              hashed_part e sc c m output @ drop (hdr_len sc + length m) output,
            take (unat (frame_start_bytes sc)) (frame_start sc) @
              hashed_part e sc c m output @ replicate (unat (hash_bytes sc)) 0 @
              drop (hdr_len sc + length m + unat (hash_bytes sc)) output,
            take (unat (frame_start_bytes sc)) (frame_start sc) @
              hashed_part e sc c m output @ replicate (unat (hash_bytes sc)) 0 @
              to_bytes e (unat (comm_ctrl_bytes sc)) cctrl @
              drop (frame_len sc (length m)) output],
           (case hash sc of
              Some h \<Rightarrow>
                if hash_bytes sc > 0
                then Some (take (unat (frame_start_bytes sc)) (frame_start sc) @
                             hashed_part e sc c m output @
                             replicate (unat (hash_bytes sc)) 0 @
                             to_bytes e (unat (comm_ctrl_bytes sc)) cctrl @
                             drop (frame_len sc (length m)) output,
                           hashed_part e sc c m output)
                else None
            | None \<Rightarrow> None),
           spec_frame e sc c cctrl m output @ drop (frame_len sc (length m)) output)"
proof -
  let ?a = "unat (frame_start_bytes sc)" and ?b = "unat (cmd_bytes sc)"
  let ?c = "unat (ts_bytes sc)" and ?d = "unat (len_bytes sc)"
  let ?h = "unat (hash_bytes sc)" and ?k = "unat (comm_ctrl_bytes sc)"
  let ?n = "length m"
  let ?tot = "frame_len sc ?n"
  from enc have wc: "field_width (cmd_bytes sc)" and wl: "field_width (len_bytes sc)"
    and wk: "comm_ctrl_bytes sc = 0 \<or> field_width (comm_ctrl_bytes sc)"
    and fs: "?a \<le> length (frame_start sc)"
    and lt: "length (ts_field sc output) = ?c"
    and lh: "length (hash_field e sc c m output) = ?h"
    and small: "?tot < 4294967296" and fits: "?tot \<le> length output"
    by (simp_all add: encodable_def)
  have tot: "?tot = ?a + ?b + ?c + ?d + ?n + ?h + ?k"
    by (simp add: frame_len_def hdr_len_def)
  from fits obtain A B C D N H K R where out: "output = A @ B @ C @ D @ N @ H @ K @ R"
    and len: "length A = ?a" "length B = ?b" "length C = ?c" "length D = ?d" "length N = ?n"
      "length H = ?h" "length K = ?k" and R: "R = drop ?tot output"
    unfolding tot by (rule split7)
  let ?S = "take ?a (frame_start sc)"
  let ?Cf = "to_bytes e ?b c"
  let ?T = "ts_field sc output"
  let ?L = "to_bytes e ?d (of_nat ?n :: 32 word)"
  let ?Hz = "replicate ?h (0 :: byte)"
  let ?Hf = "hash_field e sc c m output"
  let ?Kf = "to_bytes e ?k cctrl"
  have n32: "unat (of_nat ?n :: 32 word) = ?n"
    using small tot by (simp add: unat_of_nat_32)
  have x1: "unat (ucast (frame_start_bytes sc) + ucast (cmd_bytes sc) :: 32 word) = ?a + ?b"
    using small tot by (simp add: unat_add_32_small)
  have x2: "unat (ucast (frame_start_bytes sc) + ucast (cmd_bytes sc) + ucast (ts_bytes sc) :: 32 word)
      = ?a + ?b + ?c"
    using small tot by (simp add: unat_add_32_small)
  have x3: "unat (ucast (frame_start_bytes sc) + ucast (cmd_bytes sc) + ucast (ts_bytes sc) +
      ucast (len_bytes sc) :: 32 word) = ?a + ?b + ?c + ?d"
    using small tot by (simp add: unat_add_32_small)
  have x4: "unat (ucast (frame_start_bytes sc) + ucast (cmd_bytes sc) + ucast (ts_bytes sc) +
      ucast (len_bytes sc) + of_nat ?n :: 32 word) = ?a + ?b + ?c + ?d + ?n"
    using small tot n32 by (simp add: unat_add_32_small)
  have x5: "unat (ucast (frame_start_bytes sc) + ucast (cmd_bytes sc) + ucast (ts_bytes sc) +
      ucast (len_bytes sc) + of_nat ?n + ucast (hash_bytes sc) :: 32 word) = ?a + ?b + ?c + ?d + ?n + ?h"
    using small tot n32 by (simp add: unat_add_32_small)
  have x6: "unat (ucast (frame_start_bytes sc) + ucast (cmd_bytes sc) + ucast (ts_bytes sc) +
      ucast (len_bytes sc) + of_nat ?n + ucast (hash_bytes sc) + ucast (comm_ctrl_bytes sc) :: 32 word) = ?tot"
    using small tot n32 by (simp add: unat_add_32_small)
  have hl: "unat (ucast (cmd_bytes sc) + ucast (ts_bytes sc) +
      ucast (len_bytes sc) + of_nat ?n :: 32 word) = ?b + ?c + ?d + ?n"
    using small tot n32 by (simp add: unat_add_32_small)
  have sumlen: "(ucast (frame_start_bytes sc) + ucast (cmd_bytes sc) + ucast (ts_bytes sc) +
      ucast (len_bytes sc) + of_nat ?n + ucast (hash_bytes sc) + ucast (comm_ctrl_bytes sc) :: 32 word)
      = of_nat ?tot"
    using x6 by (metis of_nat_unat ucast_id)
  have chk: "\<not> olen < (ucast (frame_start_bytes sc) + ucast (cmd_bytes sc) + ucast (ts_bytes sc) +
      ucast (len_bytes sc) + of_nat ?n + ucast (hash_bytes sc) + ucast (comm_ctrl_bytes sc) :: 32 word)"
    using olen by (simp add: word_less_nat_alt x6)
  \<comment> \<open>the stores, one field after the other\<close>
  have s1: "(if 0 < frame_start_bytes sc
             then peek (frame_start sc) 0 ?a \<bind> poke output 0 else Some output)
            = Some (?S @ B @ C @ D @ N @ H @ K @ R)"
  proof (cases "0 < frame_start_bytes sc")
    case True
    have "poke ([] @ A @ B @ C @ D @ N @ H @ K @ R) 0 ?S = Some ([] @ ?S @ B @ C @ D @ N @ H @ K @ R)"
      by (rule poke_piece) (use fs len(1) in simp_all)
    with True fs show ?thesis by (simp add: peek_def out)
  next
    case False
    then have "?a = 0" by (simp add: word8_gt0)
    with False len(1) show ?thesis by (simp add: out)
  qed
  have s2: "put_field e (?S @ B @ C @ D @ N @ H @ K @ R) ?a c (cmd_bytes sc)
      = Some (?S @ ?Cf @ C @ D @ N @ H @ K @ R)"
    by (rule put_field_piece [OF wc]) (use fs len(2) in simp_all)
  have Ceq: "take ?c (drop (?a + ?b) output) = C"
    using len(1,2,3) by (simp add: out)
  have s3: "(case ts sc of
               Some t \<Rightarrow> if 0 < ts_bytes sc then poke (?S @ ?Cf @ C @ D @ N @ H @ K @ R) (?a + ?b) t
                         else Some (?S @ ?Cf @ C @ D @ N @ H @ K @ R)
             | None \<Rightarrow> Some (?S @ ?Cf @ C @ D @ N @ H @ K @ R))
            = Some (?S @ ?Cf @ ?T @ D @ N @ H @ K @ R)"
  proof (cases "ts sc")
    case None
    then show ?thesis by (simp add: ts_field_def Ceq)
  next
    case (Some t)
    show ?thesis
    proof (cases "0 < ts_bytes sc")
      case True
      with Some lt have t: "?T = t" "length t = length C" by (simp_all add: ts_field_def len)
      have "poke ((?S @ ?Cf) @ C @ D @ N @ H @ K @ R) (?a + ?b) t = Some ((?S @ ?Cf) @ t @ D @ N @ H @ K @ R)"
        by (rule poke_piece) (use fs t in simp_all)
      with Some True t show ?thesis by simp
    next
      case False
      then have "?c = 0" by (simp add: word8_gt0)
      with Some False len(3) show ?thesis by (simp add: ts_field_def)
    qed
  qed
  have s4: "put_field e (?S @ ?Cf @ ?T @ D @ N @ H @ K @ R) (?a + ?b + ?c) (of_nat ?n) (len_bytes sc)
      = Some (?S @ ?Cf @ ?T @ ?L @ N @ H @ K @ R)"
  proof -
    have "put_field e ((?S @ ?Cf @ ?T) @ D @ N @ H @ K @ R) (?a + ?b + ?c) (of_nat ?n) (len_bytes sc)
      = Some ((?S @ ?Cf @ ?T) @ ?L @ N @ H @ K @ R)"
      by (rule put_field_piece [OF wl]) (use fs lt len(4) in simp_all)
    then show ?thesis by simp
  qed
  have s5: "peek m 0 ?n \<bind> poke (?S @ ?Cf @ ?T @ ?L @ N @ H @ K @ R) (?a + ?b + ?c + ?d)
      = Some (?S @ ?Cf @ ?T @ ?L @ m @ H @ K @ R)"
  proof -
    have "poke ((?S @ ?Cf @ ?T @ ?L) @ N @ H @ K @ R) (?a + ?b + ?c + ?d) m
      = Some ((?S @ ?Cf @ ?T @ ?L) @ m @ H @ K @ R)"
      by (rule poke_piece) (use fs lt len(5) in simp_all)
    then show ?thesis by (simp add: peek_def)
  qed
  have s6: "(if 0 < hash_bytes sc
             then poke (?S @ ?Cf @ ?T @ ?L @ m @ H @ K @ R) (?a + ?b + ?c + ?d + ?n) ?Hz
             else Some (?S @ ?Cf @ ?T @ ?L @ m @ H @ K @ R))
      = Some (?S @ ?Cf @ ?T @ ?L @ m @ ?Hz @ K @ R)"
  proof (cases "0 < hash_bytes sc")
    case True
    have "poke ((?S @ ?Cf @ ?T @ ?L @ m) @ H @ K @ R) (?a + ?b + ?c + ?d + ?n) ?Hz
      = Some ((?S @ ?Cf @ ?T @ ?L @ m) @ ?Hz @ K @ R)"
      by (rule poke_piece) (use fs lt len(6) in simp_all)
    with True show ?thesis by simp
  next
    case False
    then have "?h = 0" by (simp add: word8_gt0)
    with False len(6) show ?thesis by simp
  qed
  have s7: "(if 0 < comm_ctrl_bytes sc
             then put_field e (?S @ ?Cf @ ?T @ ?L @ m @ ?Hz @ K @ R) (?a + ?b + ?c + ?d + ?n + ?h)
                    cctrl (comm_ctrl_bytes sc)
             else Some (?S @ ?Cf @ ?T @ ?L @ m @ ?Hz @ K @ R))
      = Some (?S @ ?Cf @ ?T @ ?L @ m @ ?Hz @ ?Kf @ R)"
  proof (cases "0 < comm_ctrl_bytes sc")
    case True
    with wk have w: "field_width (comm_ctrl_bytes sc)" by auto
    have "put_field e ((?S @ ?Cf @ ?T @ ?L @ m @ ?Hz) @ K @ R) (?a + ?b + ?c + ?d + ?n + ?h)
                    cctrl (comm_ctrl_bytes sc)
      = Some ((?S @ ?Cf @ ?T @ ?L @ m @ ?Hz) @ ?Kf @ R)"
      by (rule put_field_piece [OF w]) (use fs lt len(7) in simp_all)
    with True show ?thesis by simp
  next
    case False
    then have "?k = 0" by (simp add: word8_gt0)
    with False len(7) show ?thesis by simp
  qed
  have hp: "hashed_part e sc c m output = ?Cf @ ?T @ ?L @ m"
    by (simp add: hashed_part_def)
  have s8: "(case hash sc of
               Some h \<Rightarrow>
                 if 0 < hash_bytes sc
                 then peek (?S @ ?Cf @ ?T @ ?L @ m @ ?Hz @ ?Kf @ R) ?a (?b + ?c + ?d + ?n) \<bind>
                      (\<lambda>d. poke (?S @ ?Cf @ ?T @ ?L @ m @ ?Hz @ ?Kf @ R) (?a + ?b + ?c + ?d + ?n) (h d) \<bind>
                           (\<lambda>w. Some (Some ((?S @ ?Cf @ ?T @ ?L @ m @ ?Hz @ ?Kf @ R), d), w)))
                 else Some (None, (?S @ ?Cf @ ?T @ ?L @ m @ ?Hz @ ?Kf @ R))
             | None \<Rightarrow> Some (None, (?S @ ?Cf @ ?T @ ?L @ m @ ?Hz @ ?Kf @ R)))
      = Some (case hash sc of
                Some h \<Rightarrow> if 0 < hash_bytes sc then Some ((?S @ ?Cf @ ?T @ ?L @ m @ ?Hz @ ?Kf @ R), ?Cf @ ?T @ ?L @ m) else None
              | None \<Rightarrow> None,
              ?S @ ?Cf @ ?T @ ?L @ m @ ?Hf @ ?Kf @ R)"
  proof (cases "hash sc")
    case None
    then show ?thesis by (simp add: hash_field_def)
  next
    case (Some h)
    show ?thesis
    proof (cases "0 < hash_bytes sc")
      case True
      have pk: "peek (?S @ (?Cf @ ?T @ ?L @ m) @ ?Hz @ ?Kf @ R) ?a (?b + ?c + ?d + ?n)
          = Some (?Cf @ ?T @ ?L @ m)"
        by (rule peek_piece) (use fs lt in simp_all)
      have hf: "?Hf = h (?Cf @ ?T @ ?L @ m)"
        using Some True by (simp add: hash_field_def hp)
      have "poke ((?S @ ?Cf @ ?T @ ?L @ m) @ ?Hz @ ?Kf @ R) (?a + ?b + ?c + ?d + ?n) ?Hf
          = Some ((?S @ ?Cf @ ?T @ ?L @ m) @ ?Hf @ ?Kf @ R)"
        by (rule poke_piece) (use fs lt lh in simp_all)
      with pk Some True hf show ?thesis by simp
    next
      case False
      then have "?h = 0" by (simp add: word8_gt0)
      with Some False show ?thesis by (simp add: hash_field_def)
    qed
  qed
  have chk': "\<not> olen < (of_nat ?tot :: 32 word)"
    using chk unfolding sumlen .
  have main: "sc_make_message_steps e sc c cctrl (Some m) (of_nat (length m)) output olen =
      Some (of_nat ?tot,
            [?S @ B @ C @ D @ N @ H @ K @ R,
             ?S @ ?Cf @ C @ D @ N @ H @ K @ R,
             ?S @ ?Cf @ ?T @ D @ N @ H @ K @ R,
             ?S @ ?Cf @ ?T @ ?L @ N @ H @ K @ R,
             ?S @ ?Cf @ ?T @ ?L @ m @ H @ K @ R,
             ?S @ ?Cf @ ?T @ ?L @ m @ ?Hz @ K @ R,
             ?S @ ?Cf @ ?T @ ?L @ m @ ?Hz @ ?Kf @ R],
            (case hash sc of
               Some h \<Rightarrow> if 0 < hash_bytes sc then Some ((?S @ ?Cf @ ?T @ ?L @ m @ ?Hz @ ?Kf @ R), ?Cf @ ?T @ ?L @ m) else None
             | None \<Rightarrow> None),
            ?S @ ?Cf @ ?T @ ?L @ m @ ?Hf @ ?Kf @ R)"
    unfolding sc_make_message_steps_def Let_def
    by (simp only: chk' if_False x1 x2 x3 x4 x5 hl n32 unat_ucast_8_32 add_diff_cancel_right'
         s1 s2 s3 s4 s5 s6 s7 s8 Option.bind.simps option.simps prod.case sumlen simp_thms)
  show ?thesis
    unfolding main hp spec_frame_def tot
    using len by (simp add: out hdr_len_def split: option.split)
qed

lemma bind_map_option: "map_option f (Option.bind x g) = Option.bind x (\<lambda>y. map_option f (g y))"
  by (cases x) simp_all

lemma make_message_steps_result:
  "map_option (\<lambda>(n, snaps, call, out). (n, out))
     (sc_make_message_steps e sc c cctrl msg mlen output olen)
   = sc_make_message e sc c cctrl msg mlen output olen"
  unfolding sc_make_message_steps_def sc_make_message_def Let_def
  apply (simp only: bind_map_option if_distrib [of "map_option _"] option.map prod.case)
  apply (intro if_cong refl Option.bind_cong)
  apply (auto split: option.splits bind_splits)
  done

subsection \<open>The bytes of a field\<close>

lemma low_byte: "(ucast (v :: 32 word) :: byte) = of_nat (unat v mod 256)"
  by (simp add: word_unat_eq_iff unsigned_ucast_eq unat_of_nat take_bit_eq_mod)

lemma unat_drop_8: "unat (drop_bit 8 (v :: 32 word)) = unat v div 256"
  by (simp add: drop_bit_eq_div unat_div)

lemma le_bytes_word:
  "map (\<lambda>i. ucast (drop_bit (8 * i) v) :: byte) [0..<n] = le_bytes n (unat (v :: 32 word))"
proof (induction n arbitrary: v)
  case 0
  show ?case by simp
next
  case (Suc n)
  have e: "[0..<Suc n] = 0 # map Suc [0..<n]"
    by (simp add: upt_conv_Cons map_Suc_upt del: upt_Suc)
  have "map (\<lambda>i. ucast (drop_bit (8 * i) v) :: byte) [0..<Suc n]
      = ucast v # map (\<lambda>i. ucast (drop_bit (8 * i) (drop_bit 8 v))) [0..<n]"
    unfolding e by (simp add: comp_def drop_bit_drop_bit add.commute)
  also have "\<dots> = ucast v # le_bytes n (unat (drop_bit 8 v))"
    by (simp only: Suc.IH)
  also have "\<dots> = le_bytes (Suc n) (unat v)"
    by (simp only: le_bytes.simps low_byte unat_drop_8)
  finally show ?case .
qed

lemma to_bytes_host_order: "to_bytes e n v = host_order e n (unat v)"
  by (cases e) (simp_all add: to_bytes_def host_order_def le_bytes_word)

lemma le_bytes_1: "le_bytes 1 v = [of_nat (v mod 256)]"
  by simp

lemma le_bytes_2: "le_bytes 2 v = [of_nat (v mod 256), of_nat (v div 256 mod 256)]"
  by (simp add: numeral_2_eq_2)

lemma le_bytes_4:
  "le_bytes 4 v = [of_nat (v mod 256), of_nat (v div 256 mod 256),
                   of_nat (v div 256 div 256 mod 256), of_nat (v div 256 div 256 div 256 mod 256)]"
  by (simp add: numeral_Bit0 [of "Num.Bit0 Num.One"] numeral_2_eq_2)

lemmas host_defs = host_order_def le_bytes_1 le_bytes_2 le_bytes_4

subsection \<open>The reset detection does not depend on the checkpoints\<close>

lemma shift_message_keeps:
  "shift_message sc off am = Some sc' \<Longrightarrow>
     reset_bytes sc' = reset_bytes sc \<and> reset_byte sc' = reset_byte sc \<and> reset sc' = reset sc \<and>
     buffer_reset_bytes sc' = buffer_reset_bytes sc"
  by (auto simp: shift_message_def split: bind_splits)

lemma checkpoints_keep:
  assumes "sc_checkpoints e sc sm = Some (ev, sc')"
  shows "reset_bytes sc' = reset_bytes sc \<and> reset_byte sc' = reset_byte sc \<and> reset sc' = reset sc \<and>
     buffer_reset_bytes sc' = buffer_reset_bytes sc \<and> resets ev = 0"
  using assms unfolding sc_checkpoints_def Let_def
  by (auto simp: resets_def split: if_splits bind_splits option.splits dest: shift_message_keeps)


lemma step_keeps:
  assumes "sc_get_message e sc sm b = Some (ev, sc')"
  shows "reset_bytes sc' = reset_bytes sc \<and> reset_byte sc' = reset_byte sc \<and> reset sc' = reset sc \<and>
     buffer_reset_bytes sc' = next_count (reset_bytes sc) (reset_byte sc) (buffer_reset_bytes sc) b \<and>
     resets ev = (if fires (reset_bytes sc) (reset_byte sc) (buffer_reset_bytes sc) b \<and> reset sc \<noteq> None
                  then 1 else 0)"
proof (cases "fires (reset_bytes sc) (reset_byte sc) (buffer_reset_bytes sc) b")
  case True
  with assms show ?thesis
    by (auto simp: sc_get_message_unfold appended_def resets_def split: if_splits option.splits)
next
  case False
  with assms have "sc_checkpoints e (appended sc b) sm = Some (ev, sc')"
    by (simp add: sc_get_message_unfold split: if_splits)
  from checkpoints_keep [OF this] False show ?thesis
    by (simp add: appended_def)
qed

lemma resets_append [simp]: "resets (xs @ ys) = resets xs + resets ys"
  by (simp add: resets_def)

lemma feed_keeps:
  "sc_feed e sc sm bs = Some (evs, sc') \<Longrightarrow>
     reset_bytes sc' = reset_bytes sc \<and> reset_byte sc' = reset_byte sc \<and> reset sc' = reset sc \<and>
     buffer_reset_bytes sc' = run_count (reset_bytes sc) (reset_byte sc) (buffer_reset_bytes sc) bs \<and>
     resets evs = (if reset sc = None then 0
                   else fire_count (reset_bytes sc) (reset_byte sc) (buffer_reset_bytes sc) bs)"
proof (induction bs arbitrary: sc evs)
  case Nil
  then show ?case by (simp add: resets_def)
next
  case (Cons b bs)
  from Cons.prems obtain ev sc1 evs1 where
    s1: "sc_get_message e sc sm b = Some (ev, sc1)" and
    s2: "sc_feed e sc1 sm bs = Some (evs1, sc')" and evs: "evs = ev @ evs1"
    by (auto split: bind_splits)
  from step_keeps [OF s1] Cons.IH [OF s2] evs show ?case
    by auto
qed

lemma fire_count_run:
  "j + n \<le> 254 \<Longrightarrow> R \<noteq> SERCOMM_OMIT_RESET \<Longrightarrow>
     fire_count R rb (of_nat j) (replicate n rb) = (if j < unat R \<and> unat R \<le> j + n then 1 else 0)"
proof (induction n arbitrary: j)
  case 0
  then show ?case by simp
next
  case (Suc n)
  have nc: "next_count R rb (of_nat j) rb = of_nat (Suc j)"
    using Suc.prems(2) by (simp add: next_count_def)
  have "unat (of_nat (Suc j) :: 8 word) = Suc j"
    using Suc.prems(1) by (simp add: unat_of_nat del: of_nat_Suc)
  then have f: "fires R rb (of_nat j) rb \<longleftrightarrow> unat R = Suc j"
    using Suc.prems(2) by (auto simp: fires_def nc word_unat_eq_iff simp del: of_nat_Suc)
  have "fire_count R rb (of_nat (Suc j)) (replicate n rb)
      = (if Suc j < unat R \<and> unat R \<le> Suc j + n then 1 else 0)"
    by (rule Suc.IH) (use Suc.prems in simp_all)
  then show ?case using f by (auto simp: nc simp del: of_nat_Suc)
qed

subsection \<open>The sync checkpoint\<close>

lemma shift_loop_left:
  "1 \<le> j \<Longrightarrow> j \<le> Suc a \<Longrightarrow> Suc a \<le> length buf \<Longrightarrow>
     shift_loop buf 1 [j..<Suc a] =
       Some (take (j - 1) buf @ take (Suc a - j) (drop j buf) @ drop a buf)"
proof (induction "Suc a - j" arbitrary: j buf)
  case 0
  then have "j = Suc a" by simp
  then show ?case by simp
next
  case (Suc n)
  then have j: "j < Suc a" "j < length buf" "1 \<le> j" by simp_all
  let ?buf = "buf[j - 1 := buf ! j]"
  have up: "[j..<Suc a] = j # [Suc j..<Suc a]"
    using j by (simp add: upt_conv_Cons)
  have ih: "shift_loop ?buf 1 [Suc j..<Suc a] =
      Some (take (Suc j - 1) ?buf @ take (Suc a - Suc j) (drop (Suc j) ?buf) @ drop a ?buf)"
    by (rule Suc.hyps(1)) (use Suc.hyps(2) Suc.prems in simp_all)
  have t1: "take j ?buf = take (j - 1) buf @ [buf ! j]"
    using j by (cases j) (simp_all add: take_Suc_conv_app_nth)
  have t2: "drop (Suc j) ?buf = drop (Suc j) buf" by simp
  have t3: "drop a ?buf = drop a buf" using j by simp
  have t4: "take (Suc a - j) (drop j buf) = buf ! j # take (a - j) (drop (Suc j) buf)"
    using j by (simp add: Cons_nth_drop_Suc [symmetric] Suc_diff_le)
  have "shift_loop buf 1 [j..<Suc a] = shift_loop ?buf 1 [Suc j..<Suc a]"
    unfolding up using j by simp
  also have "\<dots> = Some (take j ?buf @ take (a - j) (drop (Suc j) ?buf) @ drop a ?buf)"
    using ih by simp
  also have "take j ?buf @ take (a - j) (drop (Suc j) ?buf) @ drop a ?buf
      = take (j - 1) buf @ take (Suc a - j) (drop j buf) @ drop a buf"
    unfolding t1 t2 t3 t4 by simp
  finally show ?case .
qed

lemma shift_message_one:
  assumes "frame_start_bytes sc \<noteq> 0" and "unat (frame_start_bytes sc) \<le> length (buffer sc)"
  shows "shift_message sc 1 (frame_start_bytes sc - 1) =
     Some (sc\<lparr>buffer := take (unat (frame_start_bytes sc) - 1) (drop 1 (buffer sc)) @
                          drop (unat (frame_start_bytes sc) - 1) (buffer sc),
              buffer_len := buffer_len sc - 1\<rparr>)"
proof -
  have pos: "0 < unat (frame_start_bytes sc)" using assms(1) by (simp add: unat_gt_0)
  have u: "unat (frame_start_bytes sc - 1) = unat (frame_start_bytes sc) - 1"
    using assms(1) by (simp add: unat_minus_one)
  have "shift_loop (buffer sc) 1 [1..<Suc (unat (frame_start_bytes sc) - 1)] =
      Some (take (1 - 1) (buffer sc) @
            take (Suc (unat (frame_start_bytes sc) - 1) - 1) (drop 1 (buffer sc)) @
            drop (unat (frame_start_bytes sc) - 1) (buffer sc))"
    by (rule shift_loop_left) (use pos assms(2) in simp_all)
  then show ?thesis
    using pos by (simp add: shift_message_def u)
qed

lemma step_sync:
  assumes "unat (buffer_len sc) < length (buffer sc)"
    and "\<not> fires (reset_bytes sc) (reset_byte sc) (buffer_reset_bytes sc) b"
    and "Suc (unat (buffer_len sc)) = unat (frame_start_bytes sc)"
    and "unat (frame_start_bytes sc) \<le> length (frame_start sc)"
    and "buf = (buffer sc)[unat (buffer_len sc) := b]"
  shows "sc_get_message e sc sm b =
     Some ([], if take (unat (frame_start_bytes sc)) buf
                    \<noteq> take (unat (frame_start_bytes sc)) (frame_start sc)
               then (appended sc b)
                      \<lparr>buffer := take (unat (frame_start_bytes sc) - 1) (drop 1 buf) @
                                 drop (unat (frame_start_bytes sc) - 1) buf,
                       buffer_len := buffer_len sc\<rparr>
               else appended sc b)"
proof (cases "take (unat (frame_start_bytes sc)) buf
                    = take (unat (frame_start_bytes sc)) (frame_start sc)")
  case True
  then show ?thesis
    using step_sync_match [OF assms(1-4), of e sm] by (simp add: assms(5))
next
  case False
  let ?A = "appended sc b"
  have small: "Suc (unat (buffer_len sc)) < 4294967296"
    using assms(3) unat_8_bound [of "frame_start_bytes sc"] by simp
  have len: "unat (buffer_len ?A) = unat (frame_start_bytes ?A)"
    using assms(3) small by (simp add: buffer_len_appended)
  have nz: "frame_start_bytes ?A \<noteq> 0"
    using assms(3) by (auto simp: unat_eq_0 [symmetric])
  have le: "unat (frame_start_bytes ?A) \<le> length (buffer ?A)"
    using assms(1,3) by simp
  have sh: "shift_message ?A 1 (frame_start_bytes sc - 1) =
      Some (?A\<lparr>buffer := take (unat (frame_start_bytes sc) - 1) (drop 1 buf) @
                           drop (unat (frame_start_bytes sc) - 1) buf,
               buffer_len := buffer_len sc\<rparr>)"
    using shift_message_one [OF nz le] by (simp add: assms(5)) (simp add: appended_def)
  have "sc_checkpoints e ?A sm =
      Some ([], ?A\<lparr>buffer := take (unat (frame_start_bytes sc) - 1) (drop 1 buf) @
                             drop (unat (frame_start_bytes sc) - 1) buf,
                   buffer_len := buffer_len sc\<rparr>)"
    unfolding cp_sync [OF len]
    using False assms(1,3,4) by (simp add: peek_def sh assms(5) [symmetric]) (simp add: assms(5))
  with False assms(1,2) show ?thesis by (simp add: sc_get_message_unfold)
qed

lemma run_count_run:
  "R \<noteq> SERCOMM_OMIT_RESET \<Longrightarrow> run_count R rb cnt (replicate n rb) = cnt + of_nat n"
  by (induction n arbitrary: cnt) (simp_all add: next_count_def)

lemma replicate_numeral: "replicate (numeral k) x = x # replicate (pred_numeral k) x"
  by (simp add: numeral_eq_Suc)

subsection \<open>The length check of the encoder\<close>

lemma make_message_too_long:
  assumes "frame_len sc (unat mlen) < 2 ^ 32" and "unat olen < frame_len sc (unat mlen)"
  shows "sc_make_message e sc c cctrl msg mlen output olen = Some (0, output)"
proof -
  have "unat (ucast (frame_start_bytes sc) + ucast (cmd_bytes sc) + ucast (ts_bytes sc) +
         ucast (len_bytes sc) + mlen + ucast (hash_bytes sc) +
         ucast (comm_ctrl_bytes sc) :: 32 word) = frame_len sc (unat mlen)"
    using assms(1) sum2_unat [of "sc\<lparr>message_len := mlen\<rparr>"]
    by (simp add: frame_len_def hdr_len_def)
  then have "olen < ucast (frame_start_bytes sc) + ucast (cmd_bytes sc) + ucast (ts_bytes sc) +
         ucast (len_bytes sc) + mlen + ucast (hash_bytes sc) + ucast (comm_ctrl_bytes sc)"
    using assms(2) by (simp add: word_less_nat_alt)
  then show ?thesis by (simp add: sc_make_message_def)
qed

lemma make_message_null_payload:
  "mlen \<noteq> 0 \<Longrightarrow> sc_make_message e sc c cctrl None mlen output olen = Some (0, output)"
  by (simp add: sc_make_message_def Let_def word_gt_0)

subsection \<open>A frame from the first byte to the dispatch\<close>

lemma receive_frame:
  assumes "receivable e sc sm c cctrl m output"
  shows "sc_feed e sc sm (spec_frame e sc c cctrl m output) =
     Some (dispatch e sc sm c cctrl m output,
           sc\<lparr>buffer := rx_buffer e sc c cctrl m output, buffer_len := 0,
              message_len := of_nat (length m),
              buffer_reset_bytes :=
                run_count (reset_bytes sc) (reset_byte sc) (buffer_reset_bytes sc)
                  (spec_frame e sc c cctrl m output)\<rparr>)"
proof -
  from assms obtain h where hs: "hash sc = Some h"
    and lH: "length (h (hashed_part e sc c m output)) = unat (hash_bytes sc)"
    by (auto simp: receivable_def split: option.splits)
  have hf: "hash_field e sc c m output = h (hashed_part e sc c m output)"
    using hs lH by (auto simp: hash_field_def word_gt_0 unat_eq_0)
  from assms have enc: "encodable e sc c m output" by (simp add: receivable_def)
  let ?X = "to_bytes e (unat (cmd_bytes sc)) c @ ts_field sc output @
            to_bytes e (unat (len_bytes sc)) (of_nat (length m)) @ m"
  have X: "hashed_part e sc c m output = ?X" by (simp add: hashed_part_def)
  have F: "spec_frame e sc c cctrl m output =
      take (unat (frame_start_bytes sc)) (frame_start sc) @ ?X @ h ?X @
      to_bytes e (unat (comm_ctrl_bytes sc)) cctrl"
    by (simp add: spec_frame_def hf X)
  have "sc_feed e sc sm (take (unat (frame_start_bytes sc)) (frame_start sc) @ ?X @ h ?X @
      to_bytes e (unat (comm_ctrl_bytes sc)) cctrl) =
     Some (case first_handler sm c of
             None \<Rightarrow> []
           | Some g \<Rightarrow>
               [FnCall g (drop (unat (frame_start_bytes sc) + unat (cmd_bytes sc))
                  ((take (unat (frame_start_bytes sc)) (frame_start sc) @ ?X @ h ?X @
                    to_bytes e (unat (comm_ctrl_bytes sc)) cctrl) @ h ?X @
                   drop (frame_len sc (length m) + unat (hash_bytes sc)) (buffer sc)))
                  (of_nat (length m))
                  (drop (hdr_len sc)
                  ((take (unat (frame_start_bytes sc)) (frame_start sc) @ ?X @ h ?X @
                    to_bytes e (unat (comm_ctrl_bytes sc)) cctrl) @ h ?X @
                   drop (frame_len sc (length m) + unat (hash_bytes sc)) (buffer sc)))
                  (if comm_ctrl_bytes sc = 0 then 0 else cctrl) (priv sc)],
           sc\<lparr>buffer := (take (unat (frame_start_bytes sc)) (frame_start sc) @ ?X @ h ?X @
                    to_bytes e (unat (comm_ctrl_bytes sc)) cctrl) @ h ?X @
                   drop (frame_len sc (length m) + unat (hash_bytes sc)) (buffer sc),
              buffer_len := 0, message_len := of_nat (length m),
              buffer_reset_bytes :=
                run_count (reset_bytes sc) (reset_byte sc) (buffer_reset_bytes sc)
                  (take (unat (frame_start_bytes sc)) (frame_start sc) @ ?X @ h ?X @
                    to_bytes e (unat (comm_ctrl_bytes sc)) cctrl)\<rparr>)"
  proof (rule decode_frame)
    show "quiet (reset_bytes sc) (reset_byte sc) (buffer_reset_bytes sc)
        (take (unat (frame_start_bytes sc)) (frame_start sc) @ ?X @ h ?X @
          to_bytes e (unat (comm_ctrl_bytes sc)) cctrl)"
      using assms unfolding receivable_def F by simp
    show "length (h ?X) = unat (hash_bytes sc)" using lH X by simp
  qed (use assms enc hs in \<open>simp_all add: receivable_def encodable_def\<close>)
  then show ?thesis
    unfolding dispatch_def rx_buffer_def spec_frame_def hf hashed_part_def
    by (simp only: append_assoc)
qed

subsection \<open>What the callback of a received frame is given\<close>

lemma rx_payload:
  assumes "receivable e sc sm c cctrl m output"
  shows "take (length m) (drop (hdr_len sc) (rx_buffer e sc c cctrl m output)) = m"
proof -
  from assms have fs: "unat (frame_start_bytes sc) \<le> length (frame_start sc)"
    and lt: "length (ts_field sc output) = unat (ts_bytes sc)"
    by (simp_all add: receivable_def encodable_def)
  have "rx_buffer e sc c cctrl m output =
      (take (unat (frame_start_bytes sc)) (frame_start sc) @
       to_bytes e (unat (cmd_bytes sc)) c @ ts_field sc output @
       to_bytes e (unat (len_bytes sc)) (of_nat (length m))) @ m @
      (hash_field e sc c m output @ to_bytes e (unat (comm_ctrl_bytes sc)) cctrl @
       hash_field e sc c m output @
       drop (frame_len sc (length m) + unat (hash_bytes sc)) (buffer sc))"
    by (simp add: rx_buffer_def spec_frame_def hashed_part_def)
  moreover have "length (take (unat (frame_start_bytes sc)) (frame_start sc) @
       to_bytes e (unat (cmd_bytes sc)) c @ ts_field sc output @
       to_bytes e (unat (len_bytes sc)) (of_nat (length m))) = hdr_len sc"
    using fs lt by (simp add: hdr_len_def)
  ultimately show ?thesis by simp
qed

lemma spec_frame_length:
  assumes "encodable e sc c m output"
  shows "length (spec_frame e sc c cctrl m output) = frame_len sc (length m)"
  using assms
  by (simp add: encodable_def spec_frame_def hashed_part_def frame_len_def hdr_len_def)

lemma receive_frame_handler:
  assumes "receivable e sc sm c cctrl m output" and "first_handler sm c = Some g"
  shows "sc_feed e sc sm (spec_frame e sc c cctrl m output) =
     Some ([FnCall g
              (drop (unat (frame_start_bytes sc) + unat (cmd_bytes sc))
                 (rx_buffer e sc c cctrl m output))
              (of_nat (length m))
              (drop (hdr_len sc) (rx_buffer e sc c cctrl m output))
              (if comm_ctrl_bytes sc = 0 then 0 else cctrl)
              (priv sc)],
           sc\<lparr>buffer := rx_buffer e sc c cctrl m output, buffer_len := 0,
              message_len := of_nat (length m),
              buffer_reset_bytes :=
                run_count (reset_bytes sc) (reset_byte sc) (buffer_reset_bytes sc)
                  (spec_frame e sc c cctrl m output)\<rparr>)"
  using receive_frame [OF assms(1)] assms(2) by (simp add: dispatch_def)

section \<open>The claims\<close>

lemmas full_defs =
  full_sc_def full_sm_def sum8_def hdr_len_def frame_len_def field_width_def
  fires_def next_count_def terminated_def first_handler_def appended_def

lemmas eval_defs =
  sc_make_message_def sc_get_message_def sc_checkpoints_def shift_message_def
  peek_def poke_def put_field_def get_field_def to_bytes_def of_bytes_def
  SERCOMM_OMIT_RESET_def SERCOMM_IGNORE_MSG_VALID_LENGTH_def Let_def

lemmas rx_defs =
  receivable_def encodable_def spec_frame_def hashed_part_def hash_field_def ts_field_def
  rx_buffer_def length_ok_def SERCOMM_IGNORE_MSG_VALID_LENGTH_def SERCOMM_OMIT_RESET_def

text \<open>
  C2. With the sync pattern \<open>00 01\<close>, one byte of command, one byte of length and no
  timestamp, hash or control field, the encoder turns command 5 and the payload \<open>AA BB\<close>
  into \<open>00 01 05 02 AA BB\<close>, as the specification says. Fed with these six bytes, the
  parser calls no callback at all: the hash callback is null, so the completion checkpoint
  does nothing, and the six bytes stay in the buffer (\<^verbatim>\<open>buffer_len\<close> is 6).
\<close>

theorem C2_example_never_dispatched:
  "sc_make_message e example_sc 5 0 (Some [0xAA, 0xBB]) 2 [0, 0, 0, 0, 0, 0, 0, 0] 8
     = Some (6, [0x00, 0x01, 0x05, 0x02, 0xAA, 0xBB, 0, 0]) \<and>
   sc_feed e example_sc example_sm [0x00, 0x01, 0x05, 0x02, 0xAA, 0xBB]
     = Some ([], example_sc\<lparr>buffer := [0x00, 0x01, 0x05, 0x02, 0xAA, 0xBB, 0, 0],
                            buffer_len := 6, message_len := 2\<rparr>)"
  by (cases e; simp add: example_sc_def example_sm_def eval_defs)

text \<open>
  C6. The encoder, statement by statement, when it succeeds. The output array is stored
  into in this order: the sync pattern, the command, the timestamp (what the callback
  stores; the old bytes of the array when there is none), the length, the payload, the
  hash field filled with zeros, the control value; each of the seven arrays is given. The
  command, the payload length and the control value are stored in the host's byte order,
  as many bytes as the field is wide. The hash callback, when one is configured and the
  hash field is not empty, is called after these stores: the array it is called on has the
  hash field zeroed, between payload and control value, and the control value in place;
  the bytes it is given are exactly those from the start of the command field to the end
  of the payload, without sync pattern and control value; what it returns is stored over
  the zeroed hash field. With no hash callback the hash field stays zero. The last array,
  and the frame length, are what \<^verbatim>\<open>sc_make_message\<close> returns.
\<close>

theorem C6_frame_layout:
  fixes sc :: sercomm and e :: endian and c cctrl :: "32 word" and m out :: "byte list"
  defines "S \<equiv> take (unat (frame_start_bytes sc)) (frame_start sc)"
  defines "Cf \<equiv> host_order e (unat (cmd_bytes sc)) (unat c)"
  defines "T \<equiv> ts_field sc out"
  defines "L \<equiv> host_order e (unat (len_bytes sc)) (length m)"
  defines "Z \<equiv> replicate (unat (hash_bytes sc)) (0 :: byte)"
  defines "K \<equiv> host_order e (unat (comm_ctrl_bytes sc)) (unat cctrl)"
  defines "rest \<equiv> drop (frame_len sc (length m)) out"
  assumes "encodable e sc c m out" and "frame_len sc (length m) \<le> unat olen"
  shows "sc_make_message_steps e sc c cctrl (Some m) (of_nat (length m)) out olen =
     Some (of_nat (frame_len sc (length m)),
           [S @ drop (unat (frame_start_bytes sc)) out,
            S @ Cf @ drop (unat (frame_start_bytes sc) + unat (cmd_bytes sc)) out,
            S @ Cf @ T @
              drop (unat (frame_start_bytes sc) + unat (cmd_bytes sc) + unat (ts_bytes sc)) out,
            S @ Cf @ T @ L @ drop (hdr_len sc) out,
            S @ Cf @ T @ L @ m @ drop (hdr_len sc + length m) out,
            S @ Cf @ T @ L @ m @ Z @ drop (hdr_len sc + length m + unat (hash_bytes sc)) out,
            S @ Cf @ T @ L @ m @ Z @ K @ rest],
           (case hash sc of
              Some h \<Rightarrow>
                if hash_bytes sc > 0 then Some (S @ Cf @ T @ L @ m @ Z @ K @ rest, Cf @ T @ L @ m)
                else None
            | None \<Rightarrow> None),
           S @ Cf @ T @ L @ m @
           (case hash sc of
              Some h \<Rightarrow> if hash_bytes sc > 0 then h (Cf @ T @ L @ m) else []
            | None \<Rightarrow> Z) @
           K @ rest) \<and>
   sc_make_message e sc c cctrl (Some m) (of_nat (length m)) out olen =
     Some (of_nat (frame_len sc (length m)),
           S @ Cf @ T @ L @ m @
           (case hash sc of
              Some h \<Rightarrow> if hash_bytes sc > 0 then h (Cf @ T @ L @ m) else []
            | None \<Rightarrow> Z) @
           K @ rest)"
proof -
  from assms(8) have "length m < 4294967296"
    by (simp add: encodable_def frame_len_def)
  then have n32: "unat (of_nat (length m) :: 32 word) = length m"
    by (rule unat_of_nat_32)
  have L: "to_bytes e (unat (len_bytes sc)) (of_nat (length m)) = L"
    by (simp add: to_bytes_host_order n32 L_def)
  show ?thesis
    using make_message_steps_frame [OF assms(8,9), of cctrl] make_message_frame [OF assms(8,9), of cctrl]
    unfolding spec_frame_def hash_field_def hashed_part_def L
    by (simp add: to_bytes_host_order S_def Cf_def T_def Z_def K_def rest_def
          split: option.split)
qed

theorem C6_frame_layout_witness:
  "encodable Little wide_sc 0x0105 [0xAA, 0xBB] [9, 9, 9, 9, 9, 9, 9, 9, 9, 9, 9, 9, 9, 9, 9, 9] \<and>
   encodable Big wide_sc 0x0105 [0xAA, 0xBB] [9, 9, 9, 9, 9, 9, 9, 9, 9, 9, 9, 9, 9, 9, 9, 9] \<and>
   frame_len wide_sc (length [0xAA :: byte, 0xBB]) \<le> unat (16 :: 32 word) \<and>
   sc_make_message_steps Little wide_sc 0x0105 0x0A0B0C0D (Some [0xAA, 0xBB]) 2
       [9, 9, 9, 9, 9, 9, 9, 9, 9, 9, 9, 9, 9, 9, 9, 9] 16
     = Some (15,
         [[0x00, 0x01, 9, 9, 9, 9, 9, 9, 9, 9, 9, 9, 9, 9, 9, 9],
          [0x00, 0x01, 0x05, 0x01, 9, 9, 9, 9, 9, 9, 9, 9, 9, 9, 9, 9],
          [0x00, 0x01, 0x05, 0x01, 0x12, 0x34, 9, 9, 9, 9, 9, 9, 9, 9, 9, 9],
          [0x00, 0x01, 0x05, 0x01, 0x12, 0x34, 0x02, 0x00, 9, 9, 9, 9, 9, 9, 9, 9],
          [0x00, 0x01, 0x05, 0x01, 0x12, 0x34, 0x02, 0x00, 0xAA, 0xBB, 9, 9, 9, 9, 9, 9],
          [0x00, 0x01, 0x05, 0x01, 0x12, 0x34, 0x02, 0x00, 0xAA, 0xBB, 0, 9, 9, 9, 9, 9],
          [0x00, 0x01, 0x05, 0x01, 0x12, 0x34, 0x02, 0x00, 0xAA, 0xBB, 0, 0x0D, 0x0C, 0x0B, 0x0A, 9]],
         Some ([0x00, 0x01, 0x05, 0x01, 0x12, 0x34, 0x02, 0x00, 0xAA, 0xBB, 0, 0x0D, 0x0C, 0x0B, 0x0A, 9],
               [0x05, 0x01, 0x12, 0x34, 0x02, 0x00, 0xAA, 0xBB]),
         [0x00, 0x01, 0x05, 0x01, 0x12, 0x34, 0x02, 0x00, 0xAA, 0xBB, 0xB3, 0x0D, 0x0C, 0x0B, 0x0A, 9]) \<and>
   sc_make_message Big wide_sc 0x0105 0x0A0B0C0D (Some [0xAA, 0xBB]) 2
       [9, 9, 9, 9, 9, 9, 9, 9, 9, 9, 9, 9, 9, 9, 9, 9] 16
     = Some (15,
         [0x00, 0x01, 0x01, 0x05, 0x12, 0x34, 0x00, 0x02, 0xAA, 0xBB, 0xB3, 0x0A, 0x0B, 0x0C, 0x0D, 9])"
proof -
  have enc: "encodable e wide_sc 0x0105 [0xAA, 0xBB] [9, 9, 9, 9, 9, 9, 9, 9, 9, 9, 9, 9, 9, 9, 9, 9]"
    for e
    by (simp add: encodable_def wide_sc_def full_sc_def field_width_def ts_field_def
          hash_field_def hashed_part_def sum8_def frame_len_def hdr_len_def)
  have len: "frame_len wide_sc (length [0xAA :: byte, 0xBB]) \<le> unat (16 :: 32 word)"
    by (simp add: wide_sc_def full_sc_def frame_len_def hdr_len_def)
  show ?thesis
    using C6_frame_layout [OF enc len, of Little "0x0A0B0C0D"]
      C6_frame_layout [OF enc len, of Big "0x0A0B0C0D"] enc len
    by (simp add: wide_sc_def full_sc_def frame_len_def hdr_len_def ts_field_def sum8_def
          host_defs)
qed

text \<open>
  C3. At the completion checkpoint with a hash callback: the byte is stored, the reset
  detection has not returned, and \<^verbatim>\<open>buffer_len\<close> is at the completion threshold and at
  neither of the other two. The hash of the bytes from the command field to the end of the
  payload is stored behind the frame and compared with the hash field received. When they
  differ no callback is called. When they are equal the callback of the first entry of the
  table with the decoded command is called once, with the pointer to the timestamp field,
  the payload length, the pointer to the payload, the decoded control value (0 without a
  control field) and \<^verbatim>\<open>priv\<close>; no callback is called when the table has no such entry.
  In every case \<^verbatim>\<open>buffer_len\<close> is 0 afterwards.
\<close>

theorem C3_completion_with_hasher:
  fixes sc :: sercomm and b :: byte and e :: endian and h :: "byte list \<Rightarrow> byte list"
  defines "n \<equiv> unat (message_len sc)"
  defines "buf \<equiv> (buffer sc)[unat (buffer_len sc) := b]"
  defines "hashed \<equiv> take (unat (cmd_bytes sc) + unat (ts_bytes sc) + unat (len_bytes sc) + n)
                      (drop (unat (frame_start_bytes sc)) buf)"
  defines "received \<equiv> take (unat (hash_bytes sc)) (drop (hdr_len sc + n) buf)"
  defines "command \<equiv> of_bytes e (take (unat (cmd_bytes sc)) (drop (unat (frame_start_bytes sc)) buf))"
  defines "control \<equiv> if comm_ctrl_bytes sc = 0 then 0
                      else of_bytes e (take (unat (comm_ctrl_bytes sc))
                             (drop (frame_len sc n - unat (comm_ctrl_bytes sc)) buf))"
  defines "scratch \<equiv> take (frame_len sc n) buf @ h hashed @
                       drop (frame_len sc n + unat (hash_bytes sc)) buf"
  assumes "hash sc = Some h"
    and "unat (buffer_len sc) < length (buffer sc)"
    and "\<not> fires (reset_bytes sc) (reset_byte sc) (buffer_reset_bytes sc) b"
    and "Suc (unat (buffer_len sc)) = frame_len sc n"
    and "Suc (unat (buffer_len sc)) \<noteq> unat (frame_start_bytes sc)"
    and "Suc (unat (buffer_len sc)) \<noteq> hdr_len sc"
    and "frame_len sc n < 2 ^ 32"
    and "frame_len sc n + unat (hash_bytes sc) \<le> length (buffer sc)"
    and "length (h hashed) = unat (hash_bytes sc)"
    and "field_width (cmd_bytes sc)"
    and "comm_ctrl_bytes sc = 0 \<or> field_width (comm_ctrl_bytes sc)"
    and "terminated sm"
  shows "sc_get_message e sc sm b =
     Some (if h hashed \<noteq> received then []
           else (case first_handler sm command of
                   None \<Rightarrow> []
                 | Some g \<Rightarrow>
                     [FnCall g
                        (drop (unat (frame_start_bytes sc) + unat (cmd_bytes sc)) scratch)
                        (message_len sc) (drop (hdr_len sc) scratch) control (priv sc)]),
           (appended sc b)\<lparr>buffer := scratch, buffer_len := 0\<rparr>)"
  using assms(8-)
  unfolding n_def buf_def hashed_def received_def command_def control_def scratch_def
  by (intro step_done_hash [OF refl refl refl refl refl refl refl]) simp_all


theorem C3_completion_with_hasher_witness:
  "hash c3_state = Some sum8 \<and>
   unat (buffer_len c3_state) < length (buffer c3_state) \<and>
   \<not> fires (reset_bytes c3_state) (reset_byte c3_state) (buffer_reset_bytes c3_state) 0x07 \<and>
   Suc (unat (buffer_len c3_state)) = frame_len c3_state (unat (message_len c3_state)) \<and>
   Suc (unat (buffer_len c3_state)) \<noteq> unat (frame_start_bytes c3_state) \<and>
   Suc (unat (buffer_len c3_state)) \<noteq> hdr_len c3_state \<and>
   frame_len c3_state (unat (message_len c3_state)) + unat (hash_bytes c3_state)
     \<le> length (buffer c3_state) \<and>
   length (sum8 [0x05, 0x12, 0x34, 0x02, 0xAA, 0xBB]) = unat (hash_bytes c3_state) \<and>
   field_width (cmd_bytes c3_state) \<and> field_width (comm_ctrl_bytes c3_state) \<and>
   terminated full_sm \<and>
   sc_get_message Little c3_state full_sm 0x07 =
     Some ([FnCall 1 [0x12, 0x34, 0x02, 0xAA, 0xBB, 0xB2, 0x07, 0xB2, 0] 2
              [0xAA, 0xBB, 0xB2, 0x07, 0xB2, 0] 7 9],
           c3_state\<lparr>buffer := [0x00, 0x01, 0x05, 0x12, 0x34, 0x02, 0xAA, 0xBB, 0xB2, 0x07, 0xB2, 0],
                    buffer_len := 0\<rparr>)"
  using C3_completion_with_hasher
    [where sc = c3_state and b = "0x07" and e = Little and h = sum8 and sm = full_sm]
  by (simp add: c3_state_def full_defs of_bytes_def)


text \<open>
  C4 (as the code has it, two cases where the claim fails). No hash callback is
  configured and the byte brings \<^verbatim>\<open>buffer_len\<close> to the completion threshold. In the
  first case no payload length is left from an earlier frame and there is no hash or
  control field, so the threshold is also the header threshold: the header checkpoint
  runs, decodes the length 9, stores it in \<^verbatim>\<open>message_len\<close>, finds it above the maximum
  of 4 and resets \<^verbatim>\<open>buffer_len\<close>. In the second case the byte completes a reset
  sequence: \<^verbatim>\<open>buffer_len\<close> is reset and the reset counter goes up.
\<close>

theorem C4_counterexample_other_branches:
  "hash c4_header_state = None \<and>
   Suc (unat (buffer_len c4_header_state))
     = frame_len c4_header_state (unat (message_len c4_header_state)) \<and>
   sc_get_message Little c4_header_state example_sm 0x09
     = Some ([], c4_header_state\<lparr>buffer := [0x00, 0x01, 0x05, 0x09, 0, 0, 0, 0],
                                 buffer_len := 0, message_len := 9\<rparr>) \<and>
   hash c4_reset_state = None \<and>
   Suc (unat (buffer_len c4_reset_state))
     = frame_len c4_reset_state (unat (message_len c4_reset_state)) \<and>
   sc_get_message Little c4_reset_state example_sm 0xBB
     = Some ([], c4_reset_state\<lparr>buffer := [0x00, 0x01, 0x05, 0x02, 0xAA, 0xBB, 0, 0],
                                buffer_len := 0, buffer_reset_bytes := 1\<rparr>)"
  by (simp add: c4_header_state_def c4_reset_state_def c4_state_def example_sc_def
        example_sm_def frame_len_def hdr_len_def eval_defs)

text \<open>
  C4. With no hash callback, the byte that brings \<^verbatim>\<open>buffer_len\<close> to the completion
  threshold (command and length fields 1, 2 or 4 bytes wide, no wrap of the threshold)
  calls no command callback, whatever the table. The byte is stored, \<^verbatim>\<open>buffer_len\<close>
  goes up by one and the reset detection counts the byte; then: if the byte completes a
  reset sequence, the reset callback is called if there is one and \<^verbatim>\<open>buffer_len\<close> is
  set to 0; otherwise, if the threshold is also the header threshold, the header
  checkpoint decodes the payload length into \<^verbatim>\<open>message_len\<close> and sets
  \<^verbatim>\<open>buffer_len\<close> to 0 when the length policy refuses it; otherwise nothing more
  happens: nothing is validated, \<^verbatim>\<open>buffer_len\<close> is not reset and the frame stays in
  the buffer.
\<close>

theorem C4_completion_without_hasher:
  fixes sc :: sercomm and b :: byte and e :: endian
  defines "l \<equiv> of_bytes e (take (unat (len_bytes sc))
                   (drop (hdr_len sc - unat (len_bytes sc))
                      ((buffer sc)[unat (buffer_len sc) := b])))"
  defines "stored \<equiv> sc\<lparr>buffer := (buffer sc)[unat (buffer_len sc) := b],
                         buffer_len := buffer_len sc + 1,
                         buffer_reset_bytes :=
                           next_count (reset_bytes sc) (reset_byte sc) (buffer_reset_bytes sc) b\<rparr>"
  assumes "hash sc = None"
    and "unat (buffer_len sc) < length (buffer sc)"
    and "Suc (unat (buffer_len sc)) = frame_len sc (unat (message_len sc))"
    and "frame_len sc (unat (message_len sc)) < 2 ^ 32"
    and "field_width (cmd_bytes sc)"
    and "field_width (len_bytes sc)"
  shows "sc_get_message e sc sm b =
     Some (if fires (reset_bytes sc) (reset_byte sc) (buffer_reset_bytes sc) b
           then (case reset sc of None \<Rightarrow> [] | Some u \<Rightarrow> [ResetCall], stored\<lparr>buffer_len := 0\<rparr>)
           else if Suc (unat (buffer_len sc)) = hdr_len sc
           then ([], if length_ok sc l then stored\<lparr>message_len := l\<rparr>
                     else stored\<lparr>message_len := l, buffer_len := 0\<rparr>)
           else ([], stored))"
proof -
  have st: "stored = appended sc b"
    by (simp add: stored_def appended_def)
  have ns: "Suc (unat (buffer_len sc)) \<noteq> unat (frame_start_bytes sc)"
    using assms(5,7) field_width_pos [of "cmd_bytes sc"] by (simp add: frame_len_def hdr_len_def)
  show ?thesis
  proof (cases "fires (reset_bytes sc) (reset_byte sc) (buffer_reset_bytes sc) b")
    case True
    with assms(4) show ?thesis by (simp add: sc_get_message_unfold st)
  next
    case nf: False
    show ?thesis
    proof (cases "Suc (unat (buffer_len sc)) = hdr_len sc")
      case True
      have "sc_get_message e sc sm b =
           Some ([], if length_ok sc l then (appended sc b)\<lparr>message_len := l\<rparr>
                     else (appended sc b)\<lparr>message_len := l, buffer_len := 0\<rparr>)"
        by (rule step_hdr [OF assms(4) nf True ns assms(8)]) (simp add: l_def)
      with nf True show ?thesis by (simp add: st)
    next
      case False
      have "sc_get_message e sc sm b = Some ([], appended sc b)"
        by (rule step_done_nohash [OF assms(4) nf _ ns False assms(3)])
           (use assms(5,6) in simp)
      with nf False show ?thesis by (simp add: st)
    qed
  qed
qed

theorem C4_completion_without_hasher_witness:
  "hash c4_state = None \<and>
   unat (buffer_len c4_state) < length (buffer c4_state) \<and>
   Suc (unat (buffer_len c4_state)) = frame_len c4_state (unat (message_len c4_state)) \<and>
   frame_len c4_state (unat (message_len c4_state)) < 2 ^ 32 \<and>
   field_width (cmd_bytes c4_state) \<and> field_width (len_bytes c4_state) \<and>
   sc_get_message Little c4_state example_sm 0xBB =
     Some ([], c4_state\<lparr>buffer := [0x00, 0x01, 0x05, 0x02, 0xAA, 0xBB, 0, 0], buffer_len := 6\<rparr>) \<and>
   hash c4_header_state = None \<and>
   unat (buffer_len c4_header_state) < length (buffer c4_header_state) \<and>
   Suc (unat (buffer_len c4_header_state))
     = frame_len c4_header_state (unat (message_len c4_header_state)) \<and>
   sc_get_message Little c4_header_state example_sm 0x02 =
     Some ([], c4_header_state\<lparr>buffer := [0x00, 0x01, 0x05, 0x02, 0, 0, 0, 0], buffer_len := 4,
                                 message_len := 2\<rparr>)"
  using C4_completion_without_hasher
    [where sc = c4_state and b = "0xBB" and e = Little and sm = example_sm]
    C4_completion_without_hasher
    [where sc = c4_header_state and b = "0x02" and e = Little and sm = example_sm]
  by (simp add: c4_state_def c4_header_state_def example_sc_def hdr_len_def frame_len_def
        fires_def next_count_def field_width_def length_ok_def of_bytes_def
        SERCOMM_OMIT_RESET_def SERCOMM_IGNORE_MSG_VALID_LENGTH_def)

text \<open>
  C8 (as the code has it, one case where the claim fails). The sync pattern has two
  bytes and the byte \<open>FF\<close> brings \<^verbatim>\<open>buffer_len\<close> to 2; the buffered bytes
  \<open>07 FF\<close> are not the pattern \<open>00 01\<close>. The byte also completes the reset
  sequence: the reset callback is called, \<^verbatim>\<open>buffer_len\<close> is set to 0, not to 1, the
  bytes are not moved, and the reset counter goes from 1 to 2.
\<close>

theorem C8_counterexample_reset_at_sync:
  "1 \<le> unat (frame_start_bytes c8_state) \<and>
   Suc (unat (buffer_len c8_state)) = unat (frame_start_bytes c8_state) \<and>
   frame_start c8_state = [0x00, 0x01] \<and>
   sc_get_message Little c8_state full_sm 0xFF
     = Some ([ResetCall], c8_state\<lparr>buffer := [0x07, 0xFF, 0, 0, 0, 0, 0, 0, 0, 0, 0, 0],
                                   buffer_len := 0, buffer_reset_bytes := 2\<rparr>)"
  by (simp add: c8_state_def full_sc_def full_sm_def eval_defs)

text \<open>
  C8. With a sync pattern of at least one byte, the byte that brings \<^verbatim>\<open>buffer_len\<close>
  to the length of the pattern is stored and counted by the reset detection (the reset
  counter changes accordingly). If it completes a reset sequence, the reset callback is
  called if there is one and \<^verbatim>\<open>buffer_len\<close> is set to 0. Otherwise no callback is
  called and: when the buffered bytes differ from the pattern the oldest byte is dropped,
  the other bytes of the pattern's length move one place to the front and
  \<^verbatim>\<open>buffer_len\<close> goes down by one; when they are the pattern the state stays as it is
  after the byte is stored. Nothing else changes.
\<close>

theorem C8_sync_checkpoint:
  fixes sc :: sercomm and b :: byte
  defines "buf \<equiv> (buffer sc)[unat (buffer_len sc) := b]"
  defines "counted \<equiv> next_count (reset_bytes sc) (reset_byte sc) (buffer_reset_bytes sc) b"
  assumes "1 \<le> unat (frame_start_bytes sc)"
    and "unat (frame_start_bytes sc) \<le> length (frame_start sc)"
    and "unat (buffer_len sc) < length (buffer sc)"
    and "Suc (unat (buffer_len sc)) = unat (frame_start_bytes sc)"
  shows "sc_get_message e sc sm b =
     Some (if fires (reset_bytes sc) (reset_byte sc) (buffer_reset_bytes sc) b
           then (case reset sc of None \<Rightarrow> [] | Some u \<Rightarrow> [ResetCall],
                 sc\<lparr>buffer := buf, buffer_len := 0, buffer_reset_bytes := counted\<rparr>)
           else ([], if take (unat (frame_start_bytes sc)) buf
                          \<noteq> take (unat (frame_start_bytes sc)) (frame_start sc)
                     then sc\<lparr>buffer := take (unat (frame_start_bytes sc) - 1) (drop 1 buf) @
                                         drop (unat (frame_start_bytes sc) - 1) buf,
                             buffer_len := (buffer_len sc + 1) - 1,
                             buffer_reset_bytes := counted\<rparr>
                     else sc\<lparr>buffer := buf, buffer_len := buffer_len sc + 1,
                             buffer_reset_bytes := counted\<rparr>))"
proof (cases "fires (reset_bytes sc) (reset_byte sc) (buffer_reset_bytes sc) b")
  case True
  with assms(5) show ?thesis
    by (simp add: sc_get_message_unfold appended_def buf_def counted_def)
next
  case False
  show ?thesis
    using step_sync [OF assms(5) False assms(6,4) refl, of e sm] False
    by (simp add: appended_def buf_def counted_def)
qed

theorem C8_sync_checkpoint_witness:
  "1 \<le> unat (frame_start_bytes c8_state) \<and>
   unat (frame_start_bytes c8_state) \<le> length (frame_start c8_state) \<and>
   unat (buffer_len c8_state) < length (buffer c8_state) \<and>
   Suc (unat (buffer_len c8_state)) = unat (frame_start_bytes c8_state) \<and>
   sc_get_message Little c8_state full_sm 0x00 =
     Some ([], c8_state\<lparr>buffer := [0x00, 0x00, 0, 0, 0, 0, 0, 0, 0, 0, 0, 0], buffer_len := 1,
                         buffer_reset_bytes := 0\<rparr>) \<and>
   sc_get_message Little (c8_state\<lparr>buffer := [0x00, 0, 0, 0, 0, 0, 0, 0, 0, 0, 0, 0]\<rparr>) full_sm 0x01 =
     Some ([], c8_state\<lparr>buffer := [0x00, 0x01, 0, 0, 0, 0, 0, 0, 0, 0, 0, 0], buffer_len := 2,
                         buffer_reset_bytes := 0\<rparr>)"
  using C8_sync_checkpoint [where sc = c8_state and b = "0x00" and e = Little and sm = full_sm]
    C8_sync_checkpoint
      [where sc = "c8_state\<lparr>buffer := [0x00, 0, 0, 0, 0, 0, 0, 0, 0, 0, 0, 0]\<rparr>" and b = "0x01"
         and e = Little and sm = full_sm]
  by (simp add: c8_state_def full_sc_def fires_def next_count_def SERCOMM_OMIT_RESET_def)

text \<open>
  C10. The reset counter is not cleared when the reset sequence completes. With the reset
  detection on, a run length between 2 and 127, the counter at 0 and a reset callback, the
  first \<open>n\<close> of twice the run length reset bytes call the reset callback once when \<open>n\<close> has
  reached the run length and not at all before, and the counter is \<open>n\<close> afterwards. The
  hypothesis on \<^verbatim>\<open>sc_feed\<close> says that the calls stay inside the arrays.
\<close>

theorem C10_reset_counter_not_cleared:
  assumes "reset_bytes sc \<noteq> SERCOMM_OMIT_RESET"
    and "2 \<le> unat (reset_bytes sc)" and "unat (reset_bytes sc) \<le> 127"
    and "buffer_reset_bytes sc = 0"
    and "reset sc \<noteq> None"
    and "n \<le> 2 * unat (reset_bytes sc)"
    and "sc_feed e sc sm (replicate n (reset_byte sc)) = Some (evs, sc')"
  shows "resets evs = (if unat (reset_bytes sc) \<le> n then 1 else 0) \<and>
         buffer_reset_bytes sc' = of_nat n"
proof -
  have "fire_count (reset_bytes sc) (reset_byte sc) (of_nat 0) (replicate n (reset_byte sc))
      = (if 0 < unat (reset_bytes sc) \<and> unat (reset_bytes sc) \<le> 0 + n then 1 else 0)"
    by (rule fire_count_run) (use assms in simp_all)
  moreover have "run_count (reset_bytes sc) (reset_byte sc) 0 (replicate n (reset_byte sc)) = of_nat n"
    using assms(1) by (simp add: run_count_run)
  ultimately show ?thesis
    using feed_keeps [OF assms(7)] assms(2,4,5) by auto
qed

theorem C10_reset_counter_not_cleared_witness:
  "reset_bytes full_sc \<noteq> SERCOMM_OMIT_RESET \<and>
   2 \<le> unat (reset_bytes full_sc) \<and> unat (reset_bytes full_sc) \<le> 127 \<and>
   buffer_reset_bytes full_sc = 0 \<and> reset full_sc \<noteq> None \<and>
   (4 :: nat) \<le> 2 * unat (reset_bytes full_sc) \<and>
   sc_feed Little full_sc full_sm (replicate 4 (reset_byte full_sc)) =
     Some ([ResetCall],
           full_sc\<lparr>buffer := [0xFF, 0xFF, 0, 0, 0, 0, 0, 0, 0, 0, 0, 0], buffer_len := 1,
                   buffer_reset_bytes := 4\<rparr>) \<and>
   resets [ResetCall] = 1 \<and>
   buffer_reset_bytes
     (full_sc\<lparr>buffer := [0xFF, 0xFF, 0, 0, 0, 0, 0, 0, 0, 0, 0, 0], buffer_len := 1,
              buffer_reset_bytes := 4\<rparr>) = 4"
proof -
  have run: "sc_feed Little full_sc full_sm (replicate 4 (reset_byte full_sc)) =
     Some ([ResetCall],
           full_sc\<lparr>buffer := [0xFF, 0xFF, 0, 0, 0, 0, 0, 0, 0, 0, 0, 0], buffer_len := 1,
                   buffer_reset_bytes := 4\<rparr>)"
    by (simp add: full_sc_def full_sm_def eval_defs replicate_numeral)
  show ?thesis
    using C10_reset_counter_not_cleared [where sc = full_sc and n = 4, OF _ _ _ _ _ _ run] run
    by (simp add: full_sc_def SERCOMM_OMIT_RESET_def)
qed

text \<open>
  C5. The length that \<^verbatim>\<open>sc_make_message\<close> compares with \<^verbatim>\<open>olen\<close> is computed in
  \<^verbatim>\<open>sc_size_t\<close> and wraps around. For a payload of \<open>2\<^sup>3\<^sup>2 - 2\<close> bytes and the example
  configuration the frame has \<open>2\<^sup>3\<^sup>2 + 2\<close> bytes, the computed length is 2, the check against
  an output array of 8 bytes passes, and the payload is copied past the end of the array.
\<close>

theorem C5_length_wraps_around:
  "sc_make_message e example_sc 5 0 (Some (replicate 4294967294 0)) 0xFFFFFFFE
     [0, 0, 0, 0, 0, 0, 0, 0] 8 = None"
  by (cases e; simp add: example_sc_def eval_defs)

text \<open>
  C1 (as the code has it, one case where the claim fails). Without a control field
  (\<^verbatim>\<open>comm_ctrl_bytes\<close> is 0) the frame of command 5, control value 7
  and payload \<open>AA BB\<close> is received and the callback is called once, but the control
  value it is given is 0, not 7: the frame has no room for it.
\<close>

theorem C1_counterexample_control_dropped:
  "sc_make_message Little noctrl_sc 5 7 (Some [0xAA, 0xBB]) 2 [0, 0, 0, 0, 0, 0, 0, 0, 0, 0, 0, 0] 12
     = Some (9, [0x00, 0x01, 0x05, 0x12, 0x34, 0x02, 0xAA, 0xBB, 0xB2, 0, 0, 0]) \<and>
   sc_feed Little noctrl_sc full_sm [0x00, 0x01, 0x05, 0x12, 0x34, 0x02, 0xAA, 0xBB, 0xB2]
     = Some ([FnCall 1 [0x12, 0x34, 0x02, 0xAA, 0xBB, 0xB2, 0xB2, 0, 0] 2
                [0xAA, 0xBB, 0xB2, 0xB2, 0, 0] 0 9],
             noctrl_sc\<lparr>buffer := [0x00, 0x01, 0x05, 0x12, 0x34, 0x02, 0xAA, 0xBB, 0xB2, 0xB2, 0, 0],
                       buffer_len := 0, message_len := 2\<rparr>)"
  by (simp add: noctrl_sc_def full_sc_def full_sm_def sum8_def eval_defs)

text \<open>
  C1. Round trip, for a frame that the parser can take (\<^const>\<open>receivable\<close>): a hash
  callback is configured and stores \<^verbatim>\<open>hash_bytes\<close> bytes; the command, length
  and control fields are 1, 2 or 4 bytes wide (the control field may be absent) and hold
  the command, the payload length and the control value; the payload length passes the
  length policy; the frame is longer than its header; the parser starts with an empty
  buffer that has room for the frame and the recomputed hash; no reset sequence completes
  inside the frame; the command table is terminated. Then \<^verbatim>\<open>sc_make_message\<close>
  writes the frame, and the parser, fed with its bytes one at a time, calls the callback of
  the first table entry of that command exactly once, and that is the only event. The
  callback is given the address of the timestamp field, the payload length, the address of
  the payload, where the bytes of the payload are found, the control value (0 when there is
  no control field) and \<^verbatim>\<open>priv\<close>; afterwards the buffer is empty.
\<close>

theorem C1_round_trip:
  assumes "receivable e sc sm c cctrl m output"
    and "frame_len sc (length m) \<le> unat olen"
    and "first_handler sm c = Some g"
  shows "sc_make_message e sc c cctrl (Some m) (of_nat (length m)) output olen =
           Some (of_nat (frame_len sc (length m)),
                 spec_frame e sc c cctrl m output @ drop (frame_len sc (length m)) output) \<and>
         length (spec_frame e sc c cctrl m output) = frame_len sc (length m) \<and>
         sc_feed e sc sm (spec_frame e sc c cctrl m output) =
           Some ([FnCall g
                    (drop (unat (frame_start_bytes sc) + unat (cmd_bytes sc))
                       (rx_buffer e sc c cctrl m output))
                    (of_nat (length m))
                    (drop (hdr_len sc) (rx_buffer e sc c cctrl m output))
                    (if comm_ctrl_bytes sc = 0 then 0 else cctrl)
                    (priv sc)],
                 sc\<lparr>buffer := rx_buffer e sc c cctrl m output, buffer_len := 0,
                    message_len := of_nat (length m),
                    buffer_reset_bytes :=
                      run_count (reset_bytes sc) (reset_byte sc) (buffer_reset_bytes sc)
                        (spec_frame e sc c cctrl m output)\<rparr>) \<and>
         take (length m) (drop (hdr_len sc) (rx_buffer e sc c cctrl m output)) = m"
proof -
  from assms(1) have enc: "encodable e sc c m output" by (simp add: receivable_def)
  show ?thesis
    using make_message_frame [OF enc assms(2), of cctrl] spec_frame_length [OF enc, of cctrl]
      receive_frame_handler [OF assms(1,3)] rx_payload [OF assms(1)]
    by simp
qed

theorem C1_round_trip_witness:
  "receivable Little full_sc full_sm 5 7 [0xAA, 0xBB] [0, 0, 0, 0, 0, 0, 0, 0, 0, 0, 0, 0] \<and>
   frame_len full_sc (length [0xAA :: byte, 0xBB]) \<le> unat (12 :: 32 word) \<and>
   first_handler full_sm 5 = Some 1 \<and>
   sc_make_message Little full_sc 5 7 (Some [0xAA, 0xBB]) 2 [0, 0, 0, 0, 0, 0, 0, 0, 0, 0, 0, 0] 12
     = Some (10, [0x00, 0x01, 0x05, 0x12, 0x34, 0x02, 0xAA, 0xBB, 0xB2, 0x07, 0, 0]) \<and>
   sc_feed Little full_sc full_sm [0x00, 0x01, 0x05, 0x12, 0x34, 0x02, 0xAA, 0xBB, 0xB2, 0x07]
     = Some ([FnCall 1 [0x12, 0x34, 0x02, 0xAA, 0xBB, 0xB2, 0x07, 0xB2, 0] 2
                [0xAA, 0xBB, 0xB2, 0x07, 0xB2, 0] 7 9],
             full_sc\<lparr>buffer := [0x00, 0x01, 0x05, 0x12, 0x34, 0x02, 0xAA, 0xBB, 0xB2, 0x07, 0xB2, 0],
                     buffer_len := 0, message_len := 2\<rparr>)"
proof -
  have rx: "receivable Little full_sc full_sm 5 7 [0xAA, 0xBB] [0, 0, 0, 0, 0, 0, 0, 0, 0, 0, 0, 0]"
    by (simp add: rx_defs full_defs to_bytes_def)
  have len: "frame_len full_sc (length [0xAA :: byte, 0xBB]) \<le> unat (12 :: 32 word)"
    by (simp add: full_defs)
  have fh: "first_handler full_sm 5 = Some 1"
    by (simp add: full_defs)
  show ?thesis
    using C1_round_trip [OF rx len fh] rx len fh
    by (simp add: rx_defs full_defs eval_defs)
qed

text \<open>
  C7 (as the code has it, one case where the claim fails). With at most two bytes of
  payload allowed, a frame that announces nine bytes is refused at the end of its header
  and the buffer is flushed. The bytes of the frame that follow are parsed as new input:
  here the payload is itself a frame, and its callback is called while the refused frame
  is still being fed.
\<close>

theorem C7_counterexample_embedded_frame:
  "sc_make_message Little full_sc 5 7
     (Some [0x00, 0x01, 0x05, 0x12, 0x34, 0x01, 0xAA, 0xF6, 0x07]) 9
     [0, 0, 0, 0, 0, 0, 0, 0, 0, 0, 0, 0, 0, 0, 0, 0, 0, 0] 18
     = Some (17, [0x00, 0x01, 0x05, 0x12, 0x34, 0x09,
                  0x00, 0x01, 0x05, 0x12, 0x34, 0x01, 0xAA, 0xF6, 0x07, 0x48, 0x07, 0]) \<and>
   \<not> length_ok full_sc 9 \<and>
   sc_feed Little full_sc full_sm
     [0x00, 0x01, 0x05, 0x12, 0x34, 0x09,
      0x00, 0x01, 0x05, 0x12, 0x34, 0x01, 0xAA, 0xF6, 0x07, 0x48, 0x07]
     = Some ([FnCall 1 [0x12, 0x34, 0x01, 0xAA, 0xF6, 0x07, 0xF6, 0, 0] 1
                [0xAA, 0xF6, 0x07, 0xF6, 0, 0] 7 9],
             full_sc\<lparr>buffer := [0x07, 0x07, 0x05, 0x12, 0x34, 0x01, 0xAA, 0xF6, 0x07, 0xF6, 0, 0],
                     buffer_len := 1, message_len := 1\<rparr>)"
  by (simp add: full_sc_def full_sm_def sum8_def eval_defs length_ok_def)

text \<open>
  C7. The header checkpoint. When the appended byte is the last one of the header (and
  completes no reset sequence), the payload length \<open>l\<close> is read from the length field
  and stored in \<^verbatim>\<open>message_len\<close>, and no callback is called at this byte. If
  \<open>l\<close> passes the length policy (equal to \<^verbatim>\<open>message_valid_len\<close> when one is
  configured, otherwise at most \<^verbatim>\<open>message_max_len\<close>) the byte stays in the
  buffer; if not, \<^verbatim>\<open>buffer_len\<close> is set to 0. From that flushed state, a
  frame that the parser can take, fed from its first byte, is received and its callback is
  called exactly once.
\<close>

theorem C7_length_policy:
  fixes sc :: sercomm and b :: byte and e :: endian
  defines "l \<equiv> of_bytes e (take (unat (len_bytes sc))
                   (drop (hdr_len sc - unat (len_bytes sc))
                      ((buffer sc)[unat (buffer_len sc) := b])))"
  defines "flushed \<equiv> (appended sc b)\<lparr>message_len := l, buffer_len := 0\<rparr>"
  assumes "unat (buffer_len sc) < length (buffer sc)"
    and "\<not> fires (reset_bytes sc) (reset_byte sc) (buffer_reset_bytes sc) b"
    and "Suc (unat (buffer_len sc)) = hdr_len sc"
    and "field_width (cmd_bytes sc)"
    and "field_width (len_bytes sc)"
  shows "sc_get_message e sc sm b =
           Some ([], if length_ok sc l then (appended sc b)\<lparr>message_len := l\<rparr> else flushed) \<and>
         (\<not> length_ok sc l \<longrightarrow>
          receivable e flushed sm c cctrl m out \<longrightarrow>
          first_handler sm c = Some g \<longrightarrow>
          sc_feed e flushed sm (spec_frame e flushed c cctrl m out) =
            Some ([FnCall g
                     (drop (unat (frame_start_bytes sc) + unat (cmd_bytes sc))
                        (rx_buffer e flushed c cctrl m out))
                     (of_nat (length m))
                     (drop (hdr_len sc) (rx_buffer e flushed c cctrl m out))
                     (if comm_ctrl_bytes sc = 0 then 0 else cctrl)
                     (priv sc)],
                  flushed\<lparr>buffer := rx_buffer e flushed c cctrl m out, buffer_len := 0,
                          message_len := of_nat (length m),
                          buffer_reset_bytes :=
                            run_count (reset_bytes sc) (reset_byte sc)
                              (buffer_reset_bytes flushed)
                              (spec_frame e flushed c cctrl m out)\<rparr>))"
proof -
  have ns: "Suc (unat (buffer_len sc)) \<noteq> unat (frame_start_bytes sc)"
    using assms(5,6) field_width_pos [of "cmd_bytes sc"] by (simp add: hdr_len_def)
  have first: "sc_get_message e sc sm b =
      Some ([], if length_ok sc l then (appended sc b)\<lparr>message_len := l\<rparr> else flushed)"
    unfolding flushed_def
    by (rule step_hdr [OF assms(3,4,5) ns assms(7)]) (simp add: l_def)
  have cfg: "frame_start_bytes flushed = frame_start_bytes sc" "cmd_bytes flushed = cmd_bytes sc"
    "hdr_len flushed = hdr_len sc" "comm_ctrl_bytes flushed = comm_ctrl_bytes sc"
    "priv flushed = priv sc" "reset_bytes flushed = reset_bytes sc"
    "reset_byte flushed = reset_byte sc"
    by (simp_all add: flushed_def appended_def hdr_len_def)
  show ?thesis
    using first receive_frame_handler [of e flushed sm c cctrl m out g]
    by (simp add: cfg)
qed

theorem C7_length_policy_witness:
  "unat (buffer_len c7_state) < length (buffer c7_state) \<and>
   \<not> fires (reset_bytes c7_state) (reset_byte c7_state) (buffer_reset_bytes c7_state) 0x09 \<and>
   Suc (unat (buffer_len c7_state)) = hdr_len c7_state \<and>
   field_width (cmd_bytes c7_state) \<and> field_width (len_bytes c7_state) \<and>
   \<not> length_ok c7_state 9 \<and>
   sc_get_message Little c7_state full_sm 0x09 = Some ([], c7_flushed) \<and>
   receivable Little c7_flushed full_sm 5 7 [0xAA, 0xBB] [0, 0, 0, 0, 0, 0, 0, 0, 0, 0, 0, 0] \<and>
   first_handler full_sm 5 = Some 1 \<and>
   spec_frame Little c7_flushed 5 7 [0xAA, 0xBB] [0, 0, 0, 0, 0, 0, 0, 0, 0, 0, 0, 0]
     = [0x00, 0x01, 0x05, 0x12, 0x34, 0x02, 0xAA, 0xBB, 0xB2, 0x07] \<and>
   sc_feed Little c7_flushed full_sm [0x00, 0x01, 0x05, 0x12, 0x34, 0x02, 0xAA, 0xBB, 0xB2, 0x07]
     = Some ([FnCall 1 [0x12, 0x34, 0x02, 0xAA, 0xBB, 0xB2, 0x07, 0xB2, 0] 2
                [0xAA, 0xBB, 0xB2, 0x07, 0xB2, 0] 7 9],
             c7_flushed\<lparr>buffer := [0x00, 0x01, 0x05, 0x12, 0x34, 0x02, 0xAA, 0xBB, 0xB2, 0x07, 0xB2, 0],
                        message_len := 2\<rparr>)"
  using C7_length_policy [where sc = c7_state and b = "0x09" and e = Little and sm = full_sm
      and c = 5 and cctrl = 7 and m = "[0xAA, 0xBB]"
      and out = "[0, 0, 0, 0, 0, 0, 0, 0, 0, 0, 0, 0]" and g = 1]
  by (simp add: c7_state_def c7_flushed_def rx_defs full_defs eval_defs)

text \<open>
  C9 (as the code has it, one case where the claim fails). With a reset sequence of two
  bytes \<open>FF\<close>, the frame that the encoder makes for the payload \<open>FF FF\<close> passes the
  length policy, and yet, fed after a reset, it is not received: its payload holds a reset
  sequence, so the reset callback is called a second time in the middle of the frame and no
  command callback is called.
\<close>

theorem C9_counterexample_reset_run_in_frame:
  "sc_make_message Little full_sc 5 7 (Some [0xFF, 0xFF]) 2 [0, 0, 0, 0, 0, 0, 0, 0, 0, 0, 0, 0] 12
     = Some (10, [0x00, 0x01, 0x05, 0x12, 0x34, 0x02, 0xFF, 0xFF, 0x4B, 0x07, 0, 0]) \<and>
   length_ok full_sc 2 \<and>
   sc_feed Little full_sc full_sm [0xFF, 0xFF] = Some ([ResetCall], c9_flushed) \<and>
   sc_feed Little c9_flushed full_sm [0x00, 0x01, 0x05, 0x12, 0x34, 0x02, 0xFF, 0xFF, 0x4B, 0x07]
     = Some ([ResetCall],
             full_sc\<lparr>buffer := [0x07, 0x07, 0x05, 0x12, 0x34, 0x02, 0xFF, 0xFF, 0, 0, 0, 0],
                     buffer_len := 1, message_len := 2\<rparr>)"
  by (simp add: c9_flushed_def full_sc_def full_sm_def sum8_def eval_defs length_ok_def)

text \<open>
  C9. The reset sequence. Reset detection is enabled, the sequence has at least one byte,
  the counter is 0 and a reset callback is configured. The parser may be anywhere in a
  frame. If the first \<^verbatim>\<open>reset_bytes\<close> - 1 reset bytes are taken by the parser
  (leaving it in \<open>sc1\<close>, with room for one more byte), none of them calls the reset
  callback; the last reset byte calls it exactly once, sets \<^verbatim>\<open>buffer_len\<close> to
  0 and returns before any checkpoint (nothing else changes but the appended byte and the
  counter). From that state, a frame that the parser can take, which in particular
  completes no reset sequence by its own bytes, is received and its callback is called
  exactly once.
\<close>

theorem C9_reset_sequence:
  fixes sc sc1 :: sercomm
  defines "flushed \<equiv> (appended sc1 (reset_byte sc))\<lparr>buffer_len := 0\<rparr>"
  assumes "reset_bytes sc \<noteq> SERCOMM_OMIT_RESET"
    and "1 \<le> unat (reset_bytes sc)"
    and "buffer_reset_bytes sc = 0"
    and "reset sc = Some u"
    and "sc_feed e sc sm (replicate (unat (reset_bytes sc) - 1) (reset_byte sc)) = Some (evs, sc1)"
    and "unat (buffer_len sc1) < length (buffer sc1)"
  shows "resets evs = 0 \<and>
         sc_get_message e sc1 sm (reset_byte sc) = Some ([ResetCall], flushed) \<and>
         buffer_len flushed = 0 \<and>
         (receivable e flushed sm c cctrl m out \<longrightarrow>
          first_handler sm c = Some g \<longrightarrow>
          sc_feed e flushed sm (spec_frame e flushed c cctrl m out) =
            Some ([FnCall g
                     (drop (unat (frame_start_bytes flushed) + unat (cmd_bytes flushed))
                        (rx_buffer e flushed c cctrl m out))
                     (of_nat (length m))
                     (drop (hdr_len flushed) (rx_buffer e flushed c cctrl m out))
                     (if comm_ctrl_bytes flushed = 0 then 0 else cctrl)
                     (priv flushed)],
                  flushed\<lparr>buffer := rx_buffer e flushed c cctrl m out, buffer_len := 0,
                          message_len := of_nat (length m),
                          buffer_reset_bytes :=
                            run_count (reset_bytes flushed) (reset_byte flushed)
                              (buffer_reset_bytes flushed)
                              (spec_frame e flushed c cctrl m out)\<rparr>))"
proof -
  let ?R = "reset_bytes sc" and ?rb = "reset_byte sc"
  have R254: "unat ?R \<le> 254"
  proof -
    have "unat ?R \<noteq> 255"
      using assms(2) by (auto simp: SERCOMM_OMIT_RESET_def word_unat_eq_iff)
    then show ?thesis using unat_8_bound [of ?R] by simp
  qed
  note keep = feed_keeps [OF assms(6)]
  have "fire_count ?R ?rb (of_nat 0) (replicate (unat ?R - 1) ?rb)
      = (if 0 < unat ?R \<and> unat ?R \<le> 0 + (unat ?R - 1) then 1 else 0)"
    by (rule fire_count_run) (use R254 assms(2) in simp_all)
  then have r0: "resets evs = 0"
    using keep assms(3,4,5) by simp
  have cnt: "buffer_reset_bytes sc1 = of_nat (unat ?R - 1)"
    using keep assms(2,4) by (simp add: run_count_run)
  have "of_nat (unat ?R - 1) + 1 = (of_nat (Suc (unat ?R - 1)) :: 8 word)" by simp
  also have "\<dots> = ?R" using assms(3) by simp
  finally have "fires (reset_bytes sc1) (reset_byte sc1) (buffer_reset_bytes sc1) ?rb"
    using keep assms(2) by (simp add: fires_def next_count_def cnt)
  then have step: "sc_get_message e sc1 sm ?rb = Some ([ResetCall], flushed)"
    using assms(7) keep assms(5) by (simp add: sc_get_message_unfold flushed_def)
  have "buffer_len flushed = 0" by (simp add: flushed_def)
  with r0 step show ?thesis
    using receive_frame_handler [of e flushed sm c cctrl m out g] by simp
qed

theorem C9_reset_sequence_witness:
  "reset_bytes full_sc \<noteq> SERCOMM_OMIT_RESET \<and> 1 \<le> unat (reset_bytes full_sc) \<and>
   buffer_reset_bytes full_sc = 0 \<and> reset full_sc = Some () \<and>
   sc_feed Little full_sc full_sm (replicate (unat (reset_bytes full_sc) - 1) (reset_byte full_sc))
     = Some ([], full_sc\<lparr>buffer := [0xFF, 0, 0, 0, 0, 0, 0, 0, 0, 0, 0, 0], buffer_len := 1,
                         buffer_reset_bytes := 1\<rparr>) \<and>
   sc_get_message Little
     (full_sc\<lparr>buffer := [0xFF, 0, 0, 0, 0, 0, 0, 0, 0, 0, 0, 0], buffer_len := 1,
              buffer_reset_bytes := 1\<rparr>) full_sm 0xFF = Some ([ResetCall], c9_flushed) \<and>
   receivable Little c9_flushed full_sm 5 7 [0xAA, 0xBB] [0, 0, 0, 0, 0, 0, 0, 0, 0, 0, 0, 0] \<and>
   first_handler full_sm 5 = Some 1 \<and>
   spec_frame Little c9_flushed 5 7 [0xAA, 0xBB] [0, 0, 0, 0, 0, 0, 0, 0, 0, 0, 0, 0]
     = [0x00, 0x01, 0x05, 0x12, 0x34, 0x02, 0xAA, 0xBB, 0xB2, 0x07] \<and>
   sc_feed Little c9_flushed full_sm [0x00, 0x01, 0x05, 0x12, 0x34, 0x02, 0xAA, 0xBB, 0xB2, 0x07]
     = Some ([FnCall 1 [0x12, 0x34, 0x02, 0xAA, 0xBB, 0xB2, 0x07, 0xB2, 0] 2
                [0xAA, 0xBB, 0xB2, 0x07, 0xB2, 0] 7 9],
             c9_flushed\<lparr>buffer := [0x00, 0x01, 0x05, 0x12, 0x34, 0x02, 0xAA, 0xBB, 0xB2, 0x07, 0xB2, 0],
                        message_len := 2, buffer_reset_bytes := 0\<rparr>)"
proof -
  have run: "sc_feed Little full_sc full_sm
      (replicate (unat (reset_bytes full_sc) - 1) (reset_byte full_sc))
     = Some ([], full_sc\<lparr>buffer := [0xFF, 0, 0, 0, 0, 0, 0, 0, 0, 0, 0, 0], buffer_len := 1,
                         buffer_reset_bytes := 1\<rparr>)"
    by (simp add: full_sc_def full_sm_def eval_defs)
  show ?thesis
    using C9_reset_sequence [where sc = full_sc and e = Little and sm = full_sm and u = "()"
        and c = 5 and cctrl = 7 and m = "[0xAA, 0xBB]"
        and out = "[0, 0, 0, 0, 0, 0, 0, 0, 0, 0, 0, 0]" and g = 1, OF _ _ _ _ run] run
    by (simp add: c9_flushed_def rx_defs full_defs eval_defs)
qed

end
